theory Spec2Isabelle
  imports Complex_Main
begin

section \<open>Errors\<close>

text \<open>
  The library signals failures with two exception classes: \<open>cut::OutOfBoundError\<close>, thrown
  by the macros \<open>CUTCheckLess\<close> and \<open>CUTCheckGEQ\<close> (and \<open>CUTCheckGreater\<close>), and
  \<open>cut::AssertionError\<close>, thrown by \<open>CUTAssert\<close>. A method that may throw returns
  \<open>error + 'a\<close>, with \<open>Inl\<close> for the exception. In every method below each check comes
  before the first write to the object, so an \<open>Inl\<close> result means the object is as it was.
\<close>

datatype error = OutOfBoundError | AssertionError

section \<open>Adjacency lists\<close>

text \<open>
  Node indices and adjacents are C++ \<open>int\<close>; they are modelled as integers, and sizes and
  positions, which are bounded by memory, are computed without wrap-around. The one sum on
  a value the caller chooses freely, \<open>c.first + 1\<close> in the constructor from a list of
  connections, has its 32-bit wrap written out. A vector is a list; a vector is indexed by
  an \<open>int\<close> only after the range checks, hence \<open>xs ! nat i\<close>.
\<close>

record AdjacencyList =
  m_Adj :: "int list list"
  m_NConnections :: int

record CompatAdjacencyList =
  cm_Adj :: "int list"
  cm_Idx :: "int list"

text \<open>\<open>std::find(row.begin(), row.end(), j)\<close> as the offset of the iterator it returns:
  the first position of \<open>j\<close>, or \<open>length row\<close> (the end iterator) when \<open>j\<close> is absent.\<close>

fun std_find :: "int list \<Rightarrow> int \<Rightarrow> nat" where
  "std_find [] j = 0"
| "std_find (x # xs) j = (if x = j then 0 else Suc (std_find xs j))"

text \<open>\<open>std::vector::resize(n, d)\<close>: truncate, or pad with \<open>d\<close>.\<close>

definition resize :: "'a list \<Rightarrow> nat \<Rightarrow> 'a \<Rightarrow> 'a list" where
  "resize xs n d = take n xs @ replicate (n - length xs) d"

subsection \<open>cut::AdjacencyList: readers\<close>

definition NumNodes :: "AdjacencyList \<Rightarrow> int" where
  "NumNodes al = int (length (m_Adj al))"

definition NumConnections :: "AdjacencyList \<Rightarrow> int" where
  "NumConnections al = m_NConnections al"

definition NumAdjacents :: "AdjacencyList \<Rightarrow> int \<Rightarrow> error + int" where
  "NumAdjacents al i =
     (if i < 0 then Inl OutOfBoundError
      else if i \<ge> NumNodes al then Inl OutOfBoundError
      else Inr (int (length (m_Adj al ! nat i))))"

definition GetAdjacent :: "AdjacencyList \<Rightarrow> int \<Rightarrow> int \<Rightarrow> error + int" where
  "GetAdjacent al i idx =
     (if i < 0 then Inl OutOfBoundError
      else if i \<ge> NumNodes al then Inl OutOfBoundError
      else if idx < 0 then Inl OutOfBoundError
      else (case NumAdjacents al i of
              Inl e \<Rightarrow> Inl e
            | Inr n \<Rightarrow> if idx \<ge> n then Inl OutOfBoundError
                       else Inr (m_Adj al ! nat i ! nat idx)))"

subsection \<open>cut::AdjacencyList: mutation\<close>

definition AddNode :: "AdjacencyList \<Rightarrow> error + AdjacencyList" where
  "AddNode al = Inr (al\<lparr>m_Adj := m_Adj al @ [[]]\<rparr>)"

definition InsertNode :: "AdjacencyList \<Rightarrow> int \<Rightarrow> error + AdjacencyList" where
  "InsertNode al i =
     (if i < 0 then Inl OutOfBoundError
      else if i \<ge> NumNodes al then Inl OutOfBoundError
      else Inr (al\<lparr>m_Adj := take (nat i) (m_Adj al) @ [] # drop (nat i) (m_Adj al)\<rparr>))"

definition SwapNodes :: "AdjacencyList \<Rightarrow> int \<Rightarrow> int \<Rightarrow> error + AdjacencyList" where
  "SwapNodes al i j =
     (if i < 0 then Inl OutOfBoundError
      else if i \<ge> NumNodes al then Inl OutOfBoundError
      else if j < 0 then Inl OutOfBoundError
      else if j \<ge> NumNodes al then Inl OutOfBoundError
      else Inr (al\<lparr>m_Adj := (m_Adj al)[nat i := m_Adj al ! nat j, nat j := m_Adj al ! nat i]\<rparr>))"

definition RemoveNode :: "AdjacencyList \<Rightarrow> int \<Rightarrow> error + AdjacencyList" where
  "RemoveNode al i =
     (if i < 0 then Inl OutOfBoundError
      else if i \<ge> NumNodes al then Inl OutOfBoundError
      else Inr (al\<lparr>m_Adj := take (nat i) (m_Adj al) @ drop (Suc (nat i)) (m_Adj al)\<rparr>))"

definition AddAdjacent :: "AdjacencyList \<Rightarrow> int \<Rightarrow> int \<Rightarrow> error + AdjacencyList" where
  "AddAdjacent al i j =
     (if i < 0 then Inl OutOfBoundError
      else if i \<ge> NumNodes al then Inl OutOfBoundError
      else let row = m_Adj al ! nat i in
        if std_find row j \<noteq> length row then Inl AssertionError
        else Inr (al\<lparr>m_Adj := (m_Adj al)[nat i := row @ [j]]\<rparr>))"

definition InsertAdjacent :: "AdjacencyList \<Rightarrow> int \<Rightarrow> int \<Rightarrow> int \<Rightarrow> error + AdjacencyList" where
  "InsertAdjacent al i j idx =
     (if i < 0 then Inl OutOfBoundError
      else if i \<ge> NumNodes al then Inl OutOfBoundError
      else if idx < 0 then Inl OutOfBoundError
      else (case NumAdjacents al i of
              Inl e \<Rightarrow> Inl e
            | Inr n \<Rightarrow>
                if idx \<ge> n then Inl OutOfBoundError
                else let row = m_Adj al ! nat i in
                  if std_find row j \<noteq> length row then Inl AssertionError
                  else Inr (al\<lparr>m_Adj := (m_Adj al)
                         [nat i := take (nat idx) row @ j # drop (nat idx) row]\<rparr>)))"

definition UpdateAdjacent :: "AdjacencyList \<Rightarrow> int \<Rightarrow> int \<Rightarrow> int \<Rightarrow> error + AdjacencyList" where
  "UpdateAdjacent al i j idx =
     (if i < 0 then Inl OutOfBoundError
      else if i \<ge> NumNodes al then Inl OutOfBoundError
      else if idx < 0 then Inl OutOfBoundError
      else (case NumAdjacents al i of
              Inl e \<Rightarrow> Inl e
            | Inr n \<Rightarrow>
                if idx \<ge> n then Inl OutOfBoundError
                else let row = m_Adj al ! nat i in
                  if row ! nat idx = j then Inr al
                  else if std_find row j \<noteq> length row then Inl AssertionError
                  else Inr (al\<lparr>m_Adj := (m_Adj al)[nat i := row[nat idx := j]]\<rparr>)))"

definition ReplaceAdjacent :: "AdjacencyList \<Rightarrow> int \<Rightarrow> int \<Rightarrow> int \<Rightarrow> error + AdjacencyList" where
  "ReplaceAdjacent al i j k =
     (if i < 0 then Inl OutOfBoundError
      else if i \<ge> NumNodes al then Inl OutOfBoundError
      else let row = m_Adj al ! nat i in
        if std_find row k \<noteq> length row then Inl AssertionError
        else let j_pos = std_find row j in
          if j_pos = length row then Inl AssertionError
          else Inr (al\<lparr>m_Adj := (m_Adj al)[nat i := row[j_pos := k]]\<rparr>))"

definition RemoveAdjacent :: "AdjacencyList \<Rightarrow> int \<Rightarrow> int \<Rightarrow> error + AdjacencyList" where
  "RemoveAdjacent al i idx =
     (if i < 0 then Inl OutOfBoundError
      else if i \<ge> NumNodes al then Inl OutOfBoundError
      else if idx < 0 then Inl OutOfBoundError
      else (case NumAdjacents al i of
              Inl e \<Rightarrow> Inl e
            | Inr n \<Rightarrow>
                if idx \<ge> n then Inl OutOfBoundError
                else let row = m_Adj al ! nat i in
                  Inr (al\<lparr>m_Adj := (m_Adj al)
                         [nat i := take (nat idx) row @ drop (Suc (nat idx)) row]\<rparr>)))"

text \<open>A call of one of the nine mutating methods, as a value, so that statements can
  range over all of them.\<close>

datatype mutation =
    CallAddNode
  | CallInsertNode int
  | CallSwapNodes int int
  | CallRemoveNode int
  | CallAddAdjacent int int
  | CallInsertAdjacent int int int
  | CallUpdateAdjacent int int int
  | CallReplaceAdjacent int int int
  | CallRemoveAdjacent int int

fun mutate :: "AdjacencyList \<Rightarrow> mutation \<Rightarrow> error + AdjacencyList" where
  "mutate al CallAddNode = AddNode al"
| "mutate al (CallInsertNode i) = InsertNode al i"
| "mutate al (CallSwapNodes i j) = SwapNodes al i j"
| "mutate al (CallRemoveNode i) = RemoveNode al i"
| "mutate al (CallAddAdjacent i j) = AddAdjacent al i j"
| "mutate al (CallInsertAdjacent i j idx) = InsertAdjacent al i j idx"
| "mutate al (CallUpdateAdjacent i j idx) = UpdateAdjacent al i j idx"
| "mutate al (CallReplaceAdjacent i j k) = ReplaceAdjacent al i j k"
| "mutate al (CallRemoveAdjacent i idx) = RemoveAdjacent al i idx"

subsection \<open>cut::AdjacencyList: construction from a node count\<close>

text \<open>\<open>AdjacencyList(int N)\<close>: \<open>N\<close> empty rows and a connection count of zero. A negative
  \<open>N\<close> is outside the constructor's domain (\<open>resize\<close> would be asked for a size beyond
  \<open>max_size\<close>); \<open>nat N\<close> is only meaningful for \<open>0 \<le> N\<close>.\<close>

definition AdjacencyList_N :: "int \<Rightarrow> AdjacencyList" where
  "AdjacencyList_N N = \<lparr>m_Adj = resize [] (nat N) [], m_NConnections = 0\<rparr>"

subsection \<open>cut::AdjacencyList: construction from a list of connections\<close>

text \<open>
  \<open>AdjacencyList(const std::vector<std::pair<int,int>>&)\<close>. The count is set to the
  length of the input; the number of nodes is the largest first component plus one; every
  pair goes through \<open>AddAdjacent\<close> inside \<open>try { } catch (const std::exception&) { }\<close>,
  so a throwing call leaves the object as it was and the loop goes on. The pass that counts
  the pairs of each node only feeds \<open>reserve\<close>, which changes capacities and no contents;
  it indexes a vector by the first components, so these have to be non-negative.

  The number of nodes is computed as \<open>std::max(NNodes, c.first + 1)\<close> on 32-bit
  \<open>int\<close>s. For \<open>c.first = INT_MAX\<close> the sum overflows; \<open>int_wrap\<close> gives it the
  two's-complement value, \<open>INT_MIN\<close>, with which such a pair does not raise \<open>NNodes\<close>.
\<close>

definition INT_MAX :: int where
  "INT_MAX = 2147483647"

definition int_wrap :: "int \<Rightarrow> int" where
  "int_wrap x = (x + 2147483648) mod 4294967296 - 2147483648"

definition count_nodes :: "(int \<times> int) list \<Rightarrow> int" where
  "count_nodes Connections =
     fold (\<lambda>c NNodes. max NNodes (int_wrap (fst c + 1))) Connections 0"

definition try_AddAdjacent :: "int \<times> int \<Rightarrow> AdjacencyList \<Rightarrow> AdjacencyList" where
  "try_AddAdjacent c al =
     (case AddAdjacent al (fst c) (snd c) of Inl e \<Rightarrow> al | Inr al' \<Rightarrow> al')"

definition AdjacencyList_Connections :: "(int \<times> int) list \<Rightarrow> AdjacencyList" where
  "AdjacencyList_Connections Connections =
     (let NNodes = count_nodes Connections in
      if NNodes = 0
      then \<lparr>m_Adj = resize [] 0 [], m_NConnections = int (length Connections)\<rparr>
      else fold try_AddAdjacent Connections
             \<lparr>m_Adj = resize [] (nat NNodes) [], m_NConnections = int (length Connections)\<rparr>)"

subsection \<open>cut::CompatAdjacencyList: readers\<close>

definition CAL_NumNodes :: "CompatAdjacencyList \<Rightarrow> int" where
  "CAL_NumNodes cal = int (length (cm_Idx cal)) - 1"

definition CAL_NumConnections :: "CompatAdjacencyList \<Rightarrow> int" where
  "CAL_NumConnections cal = int (length (cm_Adj cal))"

definition CAL_NumAdjacents :: "CompatAdjacencyList \<Rightarrow> int \<Rightarrow> error + int" where
  "CAL_NumAdjacents cal i =
     (if i < 0 then Inl OutOfBoundError
      else if i \<ge> CAL_NumNodes cal then Inl OutOfBoundError
      else Inr (cm_Idx cal ! nat (i + 1) - cm_Idx cal ! nat i))"

definition CAL_GetAdjacent :: "CompatAdjacencyList \<Rightarrow> int \<Rightarrow> int \<Rightarrow> error + int" where
  "CAL_GetAdjacent cal i idx =
     (if i < 0 then Inl OutOfBoundError
      else if i \<ge> CAL_NumNodes cal then Inl OutOfBoundError
      else if idx < 0 then Inl OutOfBoundError
      else (case CAL_NumAdjacents cal i of
              Inl e \<Rightarrow> Inl e
            | Inr n \<Rightarrow> if idx \<ge> n then Inl OutOfBoundError
                       else Inr (cm_Adj cal ! nat (cm_Idx cal ! nat i + idx))))"

subsection \<open>cut::BaseAdjacencyList: the abstract interface\<close>

text \<open>A reference to the abstract base class is a reference to one of the two concrete
  classes; the virtual methods dispatch on it, and \<open>dynamic_cast\<close> to a concrete class
  succeeds on its own constructor only.\<close>

datatype BaseAdjacencyList =
    IsAdjacencyList AdjacencyList
  | IsCompatAdjacencyList CompatAdjacencyList

fun BAL_NumNodes :: "BaseAdjacencyList \<Rightarrow> int" where
  "BAL_NumNodes (IsAdjacencyList al) = NumNodes al"
| "BAL_NumNodes (IsCompatAdjacencyList cal) = CAL_NumNodes cal"

fun BAL_NumConnections :: "BaseAdjacencyList \<Rightarrow> int" where
  "BAL_NumConnections (IsAdjacencyList al) = NumConnections al"
| "BAL_NumConnections (IsCompatAdjacencyList cal) = CAL_NumConnections cal"

fun BAL_NumAdjacents :: "BaseAdjacencyList \<Rightarrow> int \<Rightarrow> error + int" where
  "BAL_NumAdjacents (IsAdjacencyList al) i = NumAdjacents al i"
| "BAL_NumAdjacents (IsCompatAdjacencyList cal) i = CAL_NumAdjacents cal i"

fun BAL_GetAdjacent :: "BaseAdjacencyList \<Rightarrow> int \<Rightarrow> int \<Rightarrow> error + int" where
  "BAL_GetAdjacent (IsAdjacencyList al) i idx = GetAdjacent al i idx"
| "BAL_GetAdjacent (IsCompatAdjacencyList cal) i idx = CAL_GetAdjacent cal i idx"

subsection \<open>Copy conversion\<close>

text \<open>The inner loop of all four conversions:
  \<open>for (int j = 0; j < NAdjs; ++j) vec.push_back(AL.GetAdjacent(i, j));\<close>\<close>

function push_adjacents ::
  "BaseAdjacencyList \<Rightarrow> int \<Rightarrow> int \<Rightarrow> int \<Rightarrow> int list \<Rightarrow> error + int list" where
  "push_adjacents AL i NAdjs j vec =
     (if j < NAdjs
      then (case BAL_GetAdjacent AL i j of
              Inl e \<Rightarrow> Inl e
            | Inr a \<Rightarrow> push_adjacents AL i NAdjs (j + 1) (vec @ [a]))
      else Inr vec)"
  by pat_completeness auto
termination
  by (relation "measure (\<lambda>(AL, i, NAdjs, j, vec). nat (NAdjs - j))") auto

text \<open>The outer loop of the conversions to \<open>cut::AdjacencyList\<close>: the adjacents of node
  \<open>i\<close> are pushed at the back of row \<open>i\<close>, whatever the row holds already
  (\<open>reserve\<close> before the inner loop changes the capacity of the row only).\<close>

function fill_rows ::
  "BaseAdjacencyList \<Rightarrow> int \<Rightarrow> int \<Rightarrow> int list list \<Rightarrow> error + int list list" where
  "fill_rows AL NNodes i adj =
     (if i < NNodes
      then (case BAL_NumAdjacents AL i of
              Inl e \<Rightarrow> Inl e
            | Inr NAdjs \<Rightarrow>
                (case push_adjacents AL i NAdjs 0 (adj ! nat i) of
                   Inl e \<Rightarrow> Inl e
                 | Inr row \<Rightarrow> fill_rows AL NNodes (i + 1) (adj[nat i := row])))
      else Inr adj)"
  by pat_completeness auto
termination
  by (relation "measure (\<lambda>(AL, NNodes, i, adj). nat (NNodes - i))") auto

text \<open>
  The part shared by the copy constructor and the copy assignment of
  \<open>cut::AdjacencyList\<close>, from the comment \<open>// Otherwise, use abstract interface\<close> on.
  \<open>adj0\<close> is \<open>m_Adj\<close> as the \<open>try\<close> block before it leaves it: neither branch of that
  block returns, so this part runs after a successful cast too.
\<close>

definition use_abstract_interface ::
  "BaseAdjacencyList \<Rightarrow> int list list \<Rightarrow> error + AdjacencyList" where
  "use_abstract_interface AL adj0 =
     (let NConnections = BAL_NumConnections AL;
          NNodes = BAL_NumNodes AL;
          adj = resize adj0 (nat NNodes) []
      in if NNodes = 0 then Inr \<lparr>m_Adj = adj, m_NConnections = NConnections\<rparr>
         else (case fill_rows AL NNodes 0 adj of
                 Inl e \<Rightarrow> Inl e
               | Inr adj' \<Rightarrow> Inr \<lparr>m_Adj = adj', m_NConnections = NConnections\<rparr>))"

text \<open>\<open>AdjacencyList(const cut::BaseAdjacencyList& AL)\<close>: \<open>m_Adj\<close> starts empty; the cast
  succeeds on a \<open>cut::AdjacencyList\<close> and copies its rows, and \<open>std::bad_cast\<close> is
  swallowed otherwise.\<close>

definition AdjacencyList_copy :: "BaseAdjacencyList \<Rightarrow> error + AdjacencyList" where
  "AdjacencyList_copy AL =
     use_abstract_interface AL
       (case AL of IsAdjacencyList FAL \<Rightarrow> m_Adj FAL | IsCompatAdjacencyList CAL \<Rightarrow> [])"

text \<open>\<open>operator=(const cut::BaseAdjacencyList& AL)\<close>: as the copy constructor, on an
  object that has rows already.\<close>

definition AdjacencyList_assign :: "AdjacencyList \<Rightarrow> BaseAdjacencyList \<Rightarrow> error + AdjacencyList" where
  "AdjacencyList_assign this AL =
     use_abstract_interface AL
       (case AL of IsAdjacencyList FAL \<Rightarrow> m_Adj FAL | IsCompatAdjacencyList CAL \<Rightarrow> m_Adj this)"

text \<open>The outer loop of the conversion to \<open>cut::CompatAdjacencyList\<close>:
  \<open>m_Idx[i + 1] = m_Idx[i] + NAdjs\<close>, then the adjacents of node \<open>i\<close> at the back of the
  flat vector.\<close>

function fill_flat ::
  "BaseAdjacencyList \<Rightarrow> int \<Rightarrow> int \<Rightarrow> int list \<times> int list \<Rightarrow> error + int list \<times> int list" where
  "fill_flat AL NNodes i (adj, idx) =
     (if i < NNodes
      then (case BAL_NumAdjacents AL i of
              Inl e \<Rightarrow> Inl e
            | Inr NAdjs \<Rightarrow>
                (case push_adjacents AL i NAdjs 0 adj of
                   Inl e \<Rightarrow> Inl e
                 | Inr adj' \<Rightarrow>
                     fill_flat AL NNodes (i + 1)
                       (adj', idx[nat (i + 1) := idx ! nat i + NAdjs])))
      else Inr (adj, idx))"
  by pat_completeness auto
termination
  by (relation "measure (\<lambda>(AL, NNodes, i, s). nat (NNodes - i))") auto

text \<open>\<open>CompatAdjacencyList(const cut::BaseAdjacencyList& AL)\<close>: both vectors start empty;
  the cast succeeds on a \<open>cut::CompatAdjacencyList\<close> and copies its vectors; the walk
  over the abstract interface follows in either case. \<open>reserve\<close> changes no contents.\<close>

definition CompatAdjacencyList_copy :: "BaseAdjacencyList \<Rightarrow> error + CompatAdjacencyList" where
  "CompatAdjacencyList_copy AL =
     (let adj0 = (case AL of IsAdjacencyList FAL \<Rightarrow> []
                  | IsCompatAdjacencyList CAL \<Rightarrow> cm_Adj CAL);
          idx0 = (case AL of IsAdjacencyList FAL \<Rightarrow> []
                  | IsCompatAdjacencyList CAL \<Rightarrow> cm_Idx CAL);
          NNodes = BAL_NumNodes AL;
          idx = resize idx0 (nat (NNodes + 1)) 0
      in (case fill_flat AL NNodes 0 (adj0, idx) of
            Inl e \<Rightarrow> Inl e
          | Inr (adj', idx') \<Rightarrow> Inr \<lparr>cm_Adj = adj', cm_Idx = idx'\<rparr>))"

subsection \<open>Valid positions\<close>

text \<open>\<open>i\<close> is a node and \<open>idx\<close> is the position of one of its adjacents.\<close>

definition in_range :: "AdjacencyList \<Rightarrow> int \<Rightarrow> int \<Rightarrow> bool" where
  "in_range al i idx \<longleftrightarrow>
     0 \<le> i \<and> i < NumNodes al \<and> 0 \<le> idx \<and> idx < int (length (m_Adj al ! nat i))"

subsection \<open>The adjacents of a node in a list of connections\<close>

text \<open>The second components of the pairs whose first component is \<open>i\<close>, in the order of
  the list.\<close>

definition adjacents_of :: "(int \<times> int) list \<Rightarrow> int \<Rightarrow> int list" where
  "adjacents_of Connections i = map snd (filter (\<lambda>c. fst c = i) Connections)"

text \<open>The distinct values of a list in the order of their first occurrences.\<close>

fun first_occurrences :: "int list \<Rightarrow> int list" where
  "first_occurrences [] = []"
| "first_occurrences (x # xs) = x # first_occurrences (filter (\<lambda>y. y \<noteq> x) xs)"

text \<open>What a run of \<open>AddAdjacent\<close> calls with swallowed assertion failures does to one
  row: a value is pushed unless the row has it.\<close>

fun add_new :: "int list \<Rightarrow> int list \<Rightarrow> int list" where
  "add_new row [] = row"
| "add_new row (j # js) = add_new (if j \<in> set row then row else row @ [j]) js"

subsection \<open>What a container holds, seen through the abstract interface\<close>

text \<open>\<open>AL\<close> shows the rows \<open>rows\<close>: it has as many nodes as there are rows, and node
  \<open>i\<close> has the entries of row \<open>i\<close> as its adjacents, in order.\<close>

definition has_rows :: "BaseAdjacencyList \<Rightarrow> int list list \<Rightarrow> bool" where
  "has_rows AL rows \<longleftrightarrow>
     BAL_NumNodes AL = int (length rows) \<and>
     (\<forall>i < length rows.
        BAL_NumAdjacents AL (int i) = Inr (int (length (rows ! i))) \<and>
        (\<forall>j < length (rows ! i). BAL_GetAdjacent AL (int i) (int j) = Inr (rows ! i ! j)))"

text \<open>The compact layout of \<open>rows\<close>: the rows one after the other in \<open>m_Adj\<close>, and in
  \<open>m_Idx\<close> the position where each row starts, followed by the total length.\<close>

definition flat_of :: "int list list \<Rightarrow> CompatAdjacencyList \<Rightarrow> bool" where
  "flat_of rows cal \<longleftrightarrow>
     cm_Adj cal = concat rows \<and>
     length (cm_Idx cal) = Suc (length rows) \<and>
     cm_Idx cal ! 0 = 0 \<and>
     (\<forall>k < length rows. cm_Idx cal ! Suc k = cm_Idx cal ! k + int (length (rows ! k)))"

section \<open>The indexed heap\<close>

text \<open>
  \<open>cut::MinHeap\<close> keeps \<open>m_Nodes\<close>, the heap array of (stored key, element) pairs,
  \<open>m_Perm\<close>, the position of every element in \<open>m_Nodes\<close>, and \<open>m_Sign\<close>, which is 1 for a
  min-heap and -1 for a max-heap (keys are stored multiplied by it). Keys are C++
  \<open>double\<close>s and are modelled as real numbers: rounding, infinities and NaN are outside
  the model. Positions and elements are \<open>size_t\<close>, modelled as natural numbers; \<open>2 * v\<close>
  is computed for positions \<open>v\<close> below the size of a vector only, so it does not wrap.
\<close>

record MinHeap =
  m_Nodes :: "(real \<times> nat) list"
  m_Perm :: "nat list"
  m_Sign :: int

definition Size :: "MinHeap \<Rightarrow> nat" where
  "Size h = length (m_Nodes h)"

definition FindMin :: "MinHeap \<Rightarrow> error + real \<times> nat" where
  "FindMin h =
     (if Size h \<le> 0 then Inl OutOfBoundError
      else Inr (of_int (m_Sign h) * fst (m_Nodes h ! 0), snd (m_Nodes h ! 0)))"

definition GetKey :: "MinHeap \<Rightarrow> nat \<Rightarrow> error + real" where
  "GetKey h Element =
     (if Element \<ge> Size h then Inl OutOfBoundError
      else Inr (of_int (m_Sign h) * fst (m_Nodes h ! (m_Perm h ! Element))))"

text \<open>The two swaps in the body of both sift loops:
  \<open>std::swap(m_Nodes[a], m_Nodes[b])\<close>, then
  \<open>std::swap(m_Perm[m_Nodes[a].second], m_Perm[m_Nodes[b].second])\<close>, which reads the
  elements from the nodes as already swapped.\<close>

definition swap_nodes :: "MinHeap \<Rightarrow> nat \<Rightarrow> nat \<Rightarrow> MinHeap" where
  "swap_nodes h a b =
     (let nodes = (m_Nodes h)[a := m_Nodes h ! b, b := m_Nodes h ! a];
          ea = snd (nodes ! a);
          eb = snd (nodes ! b)
      in h\<lparr>m_Nodes := nodes,
           m_Perm := (m_Perm h)[ea := m_Perm h ! eb, eb := m_Perm h ! ea]\<rparr>)"

text \<open>The loop of \<open>MoveUp\<close>, from position \<open>v\<close>. It ends because the parent \<open>v >> 1\<close> of
  a position other than 0 is smaller than the position.\<close>

function MoveUp_loop :: "MinHeap \<Rightarrow> nat \<Rightarrow> MinHeap" where
  "MoveUp_loop h v =
     (if v \<noteq> 0
      then (let p = v div 2 in
            if fst (m_Nodes h ! p) < fst (m_Nodes h ! v) then h
            else MoveUp_loop (swap_nodes h p v) p)
      else h)"
  by pat_completeness auto
termination
  by (relation "measure (\<lambda>(h, v). v)") auto

declare MoveUp_loop.simps [simp del]

definition MoveUp :: "MinHeap \<Rightarrow> nat \<Rightarrow> MinHeap" where
  "MoveUp h Element = MoveUp_loop h (m_Perm h ! Element)"

text \<open>The choice of the child in \<open>MoveDown\<close>: \<open>u\<close>, or \<open>u + 1\<close> when it is a position of
  the heap and holds a smaller key.\<close>

definition pick_child :: "MinHeap \<Rightarrow> nat \<Rightarrow> nat" where
  "pick_child h u =
     (if u + 1 < Size h
      then (if fst (m_Nodes h ! u) > fst (m_Nodes h ! (u + 1)) then u + 1 else u)
      else u)"

text \<open>The loop of \<open>MoveDown\<close>, from position \<open>v\<close>: \<open>while (true)\<close> with two exits. Nothing
  in its text bounds the number of rounds, so it is a partial function: \<open>None\<close> is a
  loop that never exits.\<close>

partial_function (option) MoveDown_loop :: "MinHeap \<Rightarrow> nat \<Rightarrow> MinHeap option" where
  "MoveDown_loop h v =
     (if 2 * v \<ge> Size h then Some h
      else (let u = pick_child h (2 * v) in
            if fst (m_Nodes h ! u) > fst (m_Nodes h ! v) then Some h
            else MoveDown_loop (swap_nodes h v u) u))"

declare MoveDown_loop.simps [code]

definition MoveDown :: "MinHeap \<Rightarrow> nat \<Rightarrow> MinHeap option" where
  "MoveDown h Element = MoveDown_loop h (m_Perm h ! Element)"

text \<open>\<open>m_Nodes[v].first += x\<close>.\<close>

definition add_to_key :: "MinHeap \<Rightarrow> nat \<Rightarrow> real \<Rightarrow> MinHeap" where
  "add_to_key h v x =
     h\<lparr>m_Nodes := (m_Nodes h)[v := (fst (m_Nodes h ! v) + x, snd (m_Nodes h ! v))]\<rparr>"

text \<open>\<open>DecreaseKey\<close> and \<open>IncreaseKey\<close> return \<open>None\<close> when they do not return,
  \<open>Some (Inl e)\<close> when they throw and \<open>Some (Inr h')\<close> when they return, leaving the heap
  \<open>h'\<close>.\<close>

definition DecreaseKey :: "MinHeap \<Rightarrow> nat \<Rightarrow> real \<Rightarrow> (error + MinHeap) option" where
  "DecreaseKey h Element Decrement =
     (if Element \<ge> Size h then Some (Inl OutOfBoundError)
      else (let v = m_Perm h ! Element;
                h1 = add_to_key h v (- (of_int (m_Sign h) * Decrement))
            in if m_Sign h > 0 then Some (Inr (MoveUp h1 Element))
               else map_option Inr (MoveDown h1 Element)))"

definition IncreaseKey :: "MinHeap \<Rightarrow> nat \<Rightarrow> real \<Rightarrow> (error + MinHeap) option" where
  "IncreaseKey h Element Increment =
     (if Element \<ge> Size h then Some (Inl OutOfBoundError)
      else (let v = m_Perm h ! Element;
                h1 = add_to_key h v (of_int (m_Sign h) * Increment)
            in if m_Sign h > 0 then map_option Inr (MoveDown h1 Element)
               else Some (Inr (MoveUp h1 Element))))"

definition Insert :: "MinHeap \<Rightarrow> real \<Rightarrow> MinHeap" where
  "Insert h Key =
     (let h1 = h\<lparr>m_Perm := m_Perm h @ [length (m_Nodes h)]\<rparr>;
          h2 = h1\<lparr>m_Nodes := m_Nodes h1 @ [(of_int (m_Sign h1) * Key, length (m_Nodes h1))]\<rparr>
      in MoveUp h2 (length (m_Nodes h2) - 1))"

text \<open>The constructor \<open>MinHeap(Keys, IsMaxHeap)\<close>.\<close>

definition MinHeap_new :: "real list \<Rightarrow> bool \<Rightarrow> MinHeap" where
  "MinHeap_new Keys IsMaxHeap =
     fold (\<lambda>k h. Insert h k) Keys
       \<lparr>m_Nodes = [], m_Perm = [], m_Sign = (if IsMaxHeap then - 1 else 1)\<rparr>"

subsection \<open>Reachable heaps and their invariant\<close>

text \<open>The heaps a caller can hold: built by the constructor, then changed by calls of
  \<open>DecreaseKey\<close> and \<open>IncreaseKey\<close> that return, with the non-negative amounts their
  interface asks for.\<close>

inductive reachable :: "MinHeap \<Rightarrow> bool" where
  built: "reachable (MinHeap_new Keys IsMaxHeap)"
| decreased: "reachable h \<Longrightarrow> 0 \<le> d \<Longrightarrow> DecreaseKey h e d = Some (Inr h') \<Longrightarrow> reachable h'"
| increased: "reachable h \<Longrightarrow> 0 \<le> d \<Longrightarrow> IncreaseKey h e d = Some (Inr h') \<Longrightarrow> reachable h'"

text \<open>\<open>m_Perm\<close> has an entry for every node and \<open>m_Nodes[m_Perm[e]].second == e\<close>.\<close>

definition perm_inverse :: "MinHeap \<Rightarrow> bool" where
  "perm_inverse h \<longleftrightarrow>
     length (m_Perm h) = Size h \<and>
     (\<forall>e \<in> {0..<Size h}. m_Perm h ! e < Size h \<and> snd (m_Nodes h ! (m_Perm h ! e)) = e)"

text \<open>The stored key at the parent position \<open>v / 2\<close> is at most the stored key at \<open>v\<close>.\<close>

definition heap_property :: "MinHeap \<Rightarrow> bool" where
  "heap_property h \<longleftrightarrow>
     (\<forall>v \<in> {1..<Size h}. fst (m_Nodes h ! (v div 2)) \<le> fst (m_Nodes h ! v))"

text \<open>\<open>m_Nodes[v].second\<close> is an element and \<open>m_Perm\<close> sends it back to \<open>v\<close>: together with
  \<open>perm_inverse\<close>, \<open>m_Perm\<close> is the inverse permutation of the elements stored in
  \<open>m_Nodes\<close>.\<close>

definition nodes_inverse :: "MinHeap \<Rightarrow> bool" where
  "nodes_inverse h \<longleftrightarrow>
     (\<forall>v \<in> {0..<Size h}. snd (m_Nodes h ! v) < Size h \<and> m_Perm h ! snd (m_Nodes h ! v) = v)"

definition well_formed :: "MinHeap \<Rightarrow> bool" where
  "well_formed h \<longleftrightarrow> perm_inverse h \<and> nodes_inverse h"

text \<open>The stored key at a position, and the stored key of an element.\<close>

definition key_at :: "MinHeap \<Rightarrow> nat \<Rightarrow> real" where
  "key_at h v = fst (m_Nodes h ! v)"

definition key_of :: "MinHeap \<Rightarrow> nat \<Rightarrow> real" where
  "key_of h e = fst (m_Nodes h ! (m_Perm h ! e))"

text \<open>The invariant of the loop of \<open>MoveUp\<close> at position \<open>v\<close>: the heap order holds
  between every position other than \<open>v\<close> and its parent, and between the children of \<open>v\<close>
  and the parent of \<open>v\<close>.\<close>

definition heap_except_up :: "MinHeap \<Rightarrow> nat \<Rightarrow> bool" where
  "heap_except_up h v \<longleftrightarrow>
     (\<forall>w \<in> {1..<Size h}. w \<noteq> v \<longrightarrow> key_at h (w div 2) \<le> key_at h w) \<and>
     (\<forall>c \<in> {1..<Size h}. c div 2 = v \<and> 1 \<le> v \<longrightarrow> key_at h (v div 2) \<le> key_at h c)"

text \<open>The invariant of the loop of \<open>MoveDown\<close> at position \<open>v\<close>: the heap order holds
  between every position that is not a child of \<open>v\<close> and its parent, and between the
  children of \<open>v\<close> and the parent of \<open>v\<close>.\<close>

definition heap_except_down :: "MinHeap \<Rightarrow> nat \<Rightarrow> bool" where
  "heap_except_down h v \<longleftrightarrow>
     (\<forall>w \<in> {1..<Size h}. w div 2 \<noteq> v \<longrightarrow> key_at h (w div 2) \<le> key_at h w) \<and>
     (\<forall>c \<in> {1..<Size h}. c div 2 = v \<and> 1 \<le> v \<longrightarrow> key_at h (v div 2) \<le> key_at h c)"

text \<open>\<open>h'\<close> has the size and the sign of \<open>h\<close>, and every element has the stored key it
  has in \<open>h\<close>.\<close>

definition same_elements :: "MinHeap \<Rightarrow> MinHeap \<Rightarrow> bool" where
  "same_elements h h' \<longleftrightarrow>
     Size h' = Size h \<and> m_Sign h' = m_Sign h \<and>
     (\<forall>e \<in> {0..<Size h}. key_of h' e = key_of h e)"

text \<open>\<open>h'\<close> is \<open>h\<close> rearranged, with \<open>x\<close> added to the stored key of element \<open>e\<close>.\<close>

definition changed_key :: "MinHeap \<Rightarrow> nat \<Rightarrow> real \<Rightarrow> MinHeap \<Rightarrow> bool" where
  "changed_key h e x h' \<longleftrightarrow>
     well_formed h' \<and> Size h' = Size h \<and> m_Sign h' = m_Sign h \<and>
     (\<forall>e' \<in> {0..<Size h}. key_of h' e' = (if e' = e then key_of h e + x else key_of h e'))"

text \<open>The heap after the two \<open>push_back\<close>s of \<open>Insert\<close>, before \<open>MoveUp\<close>.\<close>

definition pushed :: "MinHeap \<Rightarrow> real \<Rightarrow> MinHeap" where
  "pushed h Key =
     h\<lparr>m_Perm := m_Perm h @ [Size h],
       m_Nodes := m_Nodes h @ [(of_int (m_Sign h) * Key, Size h)]\<rparr>"

text \<open>What the constructor establishes: a well-formed heap in heap order, in which
  element \<open>i\<close> has the stored key \<open>m_Sign * Keys[i]\<close>.\<close>

definition built_from :: "real list \<Rightarrow> bool \<Rightarrow> MinHeap \<Rightarrow> bool" where
  "built_from Keys IsMaxHeap h \<longleftrightarrow>
     well_formed h \<and> heap_property h \<and> Size h = length Keys \<and>
     m_Sign h = (if IsMaxHeap then - 1 else 1) \<and>
     (\<forall>e \<in> {0..<length Keys}. key_of h e = of_int (m_Sign h) * Keys ! e)"

section \<open>The cached connection count is never written by a mutation\<close>

lemma mutate_m_NConnections:
  "mutate al m = Inr al' \<Longrightarrow> m_NConnections al' = m_NConnections al"
  by (cases m)
     (auto simp: AddNode_def InsertNode_def SwapNodes_def RemoveNode_def AddAdjacent_def
        InsertAdjacent_def UpdateAdjacent_def ReplaceAdjacent_def RemoveAdjacent_def Let_def
        split: if_splits sum.splits)

text \<open>
  Claim C10. None of the mutating methods (AddNode, InsertNode, SwapNodes, RemoveNode,
  AddAdjacent, InsertAdjacent, UpdateAdjacent, ReplaceAdjacent, RemoveAdjacent) writes
  \<open>m_NConnections\<close>: whenever a call returns, \<open>NumConnections()\<close> is what it was before
  the call.
\<close>

theorem NumConnections_frame:
  "mutate al m = Inr al' \<Longrightarrow> NumConnections al' = NumConnections al"
  by (simp add: NumConnections_def mutate_m_NConnections)

text \<open>An instance where the call does change the number of stored adjacents: after
  \<open>AddAdjacent(0, 5)\<close> on a fresh one-node list, node 0 has one adjacent and the count is
  still 0.\<close>

theorem NumConnections_frame_witness:
  "mutate (AdjacencyList_N 1) (CallAddAdjacent 0 5)
     = Inr \<lparr>m_Adj = [[5]], m_NConnections = 0\<rparr>
   \<and> NumAdjacents \<lparr>m_Adj = [[5]], m_NConnections = 0\<rparr> 0 = Inr 1
   \<and> NumConnections \<lparr>m_Adj = [[5]], m_NConnections = 0\<rparr> = NumConnections (AdjacencyList_N 1)"
proof -
  have run: "mutate (AdjacencyList_N 1) (CallAddAdjacent 0 5)
      = Inr \<lparr>m_Adj = [[5]], m_NConnections = 0\<rparr>"
    by (simp add: AdjacencyList_N_def AddAdjacent_def NumNodes_def resize_def)
  have "NumAdjacents \<lparr>m_Adj = [[5]], m_NConnections = 0\<rparr> 0 = Inr 1"
    by (simp add: NumAdjacents_def NumNodes_def)
  with run NumConnections_frame [OF run] show ?thesis by simp
qed

section \<open>The connection count after a mutation\<close>

text \<open>
  Claim C7. \<open>NumConnections()\<close> is documented as the total number of connections, but
  \<open>AddAdjacent\<close> does not count the connection it adds: after \<open>AddAdjacent(0, 5)\<close> on the
  list built by \<open>AdjacencyList(1)\<close>, the only node has one adjacent and
  \<open>NumConnections()\<close> is 0.
\<close>

theorem NumConnections_stale_after_AddAdjacent:
  "AddAdjacent (AdjacencyList_N 1) 0 5 = Inr \<lparr>m_Adj = [[5]], m_NConnections = 0\<rparr>
   \<and> NumConnections \<lparr>m_Adj = [[5]], m_NConnections = 0\<rparr> = 0
   \<and> NumNodes \<lparr>m_Adj = [[5]], m_NConnections = 0\<rparr> = 1
   \<and> NumAdjacents \<lparr>m_Adj = [[5]], m_NConnections = 0\<rparr> 0 = Inr 1"
  by (simp add: AdjacencyList_N_def AddAdjacent_def NumNodes_def resize_def
      NumConnections_def NumAdjacents_def)

section \<open>Insertion of an adjacent at a position\<close>

lemma std_find_end: "std_find row j = length row \<longleftrightarrow> j \<notin> set row"
  by (induction row) auto

text \<open>
  Claim C9, as stated, at the upper end of the range: node 0 has the two adjacents 1 and
  2, and \<open>InsertAdjacent(0, 3, 2)\<close>, with \<open>idx = NumAdjacents(0)\<close> and 3 not adjacent,
  signals OutOfRange.
\<close>

theorem InsertAdjacent_at_end_counterexample:
  "NumAdjacents \<lparr>m_Adj = [[1, 2]], m_NConnections = 2\<rparr> 0 = Inr 2
   \<and> 3 \<notin> set (m_Adj \<lparr>m_Adj = [[1, 2]], m_NConnections = 2\<rparr> ! 0)
   \<and> InsertAdjacent \<lparr>m_Adj = [[1, 2]], m_NConnections = 2\<rparr> 0 3 2 = Inl OutOfBoundError"
  by (simp add: InsertAdjacent_def NumAdjacents_def NumNodes_def)

text \<open>
  Claim C9, amended. \<open>InsertAdjacent(i, j, idx)\<close> signals OutOfRange exactly when \<open>i\<close> is
  not a node or \<open>idx\<close> is outside \<open>[0, NumAdjacents(i))\<close>, the upper end excluded; it
  signals FailedAssertion exactly when both are in range and \<open>j\<close> is already adjacent to
  \<open>i\<close>; otherwise it succeeds, the number of nodes is unchanged, row \<open>i\<close> has \<open>j\<close> at
  position \<open>idx\<close> with the later entries shifted forward, and the other rows are as before.
\<close>

theorem InsertAdjacent_cases:
  "(InsertAdjacent al i j idx = Inl OutOfBoundError \<longleftrightarrow> \<not> in_range al i idx)
   \<and> (InsertAdjacent al i j idx = Inl AssertionError \<longleftrightarrow>
        in_range al i idx \<and> j \<in> set (m_Adj al ! nat i))
   \<and> (in_range al i idx \<and> j \<notin> set (m_Adj al ! nat i) \<longrightarrow>
        (\<exists>al'. InsertAdjacent al i j idx = Inr al'
           \<and> NumNodes al' = NumNodes al
           \<and> m_Adj al' ! nat i
               = take (nat idx) (m_Adj al ! nat i) @ j # drop (nat idx) (m_Adj al ! nat i)
           \<and> (\<forall>k. k \<noteq> nat i \<longrightarrow> m_Adj al' ! k = m_Adj al ! k)))"
  by (auto simp: InsertAdjacent_def in_range_def NumAdjacents_def NumNodes_def Let_def
      std_find_end)

theorem InsertAdjacent_cases_witness:
  "in_range \<lparr>m_Adj = [[1, 2]], m_NConnections = 2\<rparr> 0 1
   \<and> 3 \<notin> set (m_Adj \<lparr>m_Adj = [[1, 2]], m_NConnections = 2\<rparr> ! nat 0)
   \<and> (\<exists>al'. InsertAdjacent \<lparr>m_Adj = [[1, 2]], m_NConnections = 2\<rparr> 0 3 1 = Inr al'
         \<and> m_Adj al' ! nat 0 = [1, 3, 2])"
proof -
  have h: "in_range \<lparr>m_Adj = [[1, 2]], m_NConnections = 2\<rparr> 0 1
      \<and> 3 \<notin> set (m_Adj \<lparr>m_Adj = [[1, 2]], m_NConnections = 2\<rparr> ! nat 0)"
    by (simp add: in_range_def NumNodes_def)
  with InsertAdjacent_cases [of "\<lparr>m_Adj = [[1, 2]], m_NConnections = 2\<rparr>" 0 3 1]
  show ?thesis by auto
qed

section \<open>Copy conversion from an adjacency list of the same class\<close>

text \<open>
  Claim C5. The copy constructor of \<open>cut::AdjacencyList\<close> copies the rows of a source of
  its own class and then, since the \<open>try\<close> block does not return, walks the abstract
  interface as well, which pushes every adjacent a second time: the copy of a one-node
  list with the adjacent 7 has the adjacents 7, 7.
\<close>

theorem AdjacencyList_copy_doubles_rows:
  "AdjacencyList_copy (IsAdjacencyList \<lparr>m_Adj = [[7]], m_NConnections = 1\<rparr>)
     = Inr \<lparr>m_Adj = [[7, 7]], m_NConnections = 1\<rparr>"
  by (simp add: AdjacencyList_copy_def use_abstract_interface_def NumNodes_def
      NumConnections_def resize_def NumAdjacents_def GetAdjacent_def)

text \<open>The copy assignment does the same, and on a source of the other class it keeps
  the rows the target had before.\<close>

lemma AdjacencyList_assign_doubles_rows:
  "AdjacencyList_assign \<lparr>m_Adj = [], m_NConnections = 0\<rparr>
      (IsAdjacencyList \<lparr>m_Adj = [[7]], m_NConnections = 1\<rparr>)
     = Inr \<lparr>m_Adj = [[7, 7]], m_NConnections = 1\<rparr>"
  by (simp add: AdjacencyList_assign_def use_abstract_interface_def NumNodes_def
      NumConnections_def resize_def NumAdjacents_def GetAdjacent_def)

lemma AdjacencyList_assign_keeps_old_rows:
  "AdjacencyList_assign \<lparr>m_Adj = [[1]], m_NConnections = 1\<rparr>
      (IsCompatAdjacencyList \<lparr>cm_Adj = [7], cm_Idx = [0, 1]\<rparr>)
     = Inr \<lparr>m_Adj = [[1, 7]], m_NConnections = 1\<rparr>"
  by (simp add: AdjacencyList_assign_def use_abstract_interface_def CAL_NumNodes_def
      CAL_NumConnections_def resize_def CAL_NumAdjacents_def CAL_GetAdjacent_def)

section \<open>Termination of the sift-down loop\<close>

lemma swap_nodes_same: "swap_nodes h a a = h"
  by (simp add: swap_nodes_def)

text \<open>At the root, when the chosen child is position 0 itself, a round of the loop swaps
  the root with itself and starts again from the same state: the loop has no result.\<close>

lemma MoveDown_loop_root_stuck:
  assumes "MoveDown_loop h v = Some h'"
  shows "\<not> (v = 0 \<and> 0 < Size h \<and> pick_child h 0 = 0)"
proof (rule MoveDown_loop.raw_induct
    [where P = "\<lambda>h v h'. \<not> (v = 0 \<and> 0 < Size h \<and> pick_child h 0 = 0)", OF _ assms])
  fix f :: "MinHeap \<Rightarrow> nat \<Rightarrow> MinHeap option" and h v ha
  assume IH: "\<And>h v y. f h v = Some y \<Longrightarrow> \<not> (v = 0 \<and> 0 < Size h \<and> pick_child h 0 = 0)"
    and body: "(if Size h \<le> 2 * v then Some h
      else let u = pick_child h (2 * v)
           in if fst (m_Nodes h ! v) < fst (m_Nodes h ! u) then Some h
              else f (swap_nodes h v u) u) = Some ha"
  show "\<not> (v = 0 \<and> 0 < Size h \<and> pick_child h 0 = 0)"
  proof
    assume stuck: "v = 0 \<and> 0 < Size h \<and> pick_child h 0 = 0"
    with body have "f h 0 = Some ha"
      by (simp add: swap_nodes_same)
    from IH [OF this] stuck show False by simp
  qed
qed

lemma MinHeap_new_single:
  "MinHeap_new [5] False = \<lparr>m_Nodes = [(5, 0)], m_Perm = [0], m_Sign = 1\<rparr>"
  by (simp add: MinHeap_new_def Insert_def MoveUp_def MoveUp_loop.simps)

text \<open>
  Claim C1. On the min-heap built from the single key 5, \<open>IncreaseKey(0, 1)\<close> does not
  return: element 0 is at the root, \<open>MoveDown\<close> computes the child position \<open>2 * 0 = 0\<close>,
  finds that the key at 0 is not greater than itself, swaps position 0 with itself and
  repeats.
\<close>

theorem IncreaseKey_at_root_never_returns:
  "IncreaseKey (MinHeap_new [5] False) 0 1 = None"
proof (cases "MoveDown_loop \<lparr>m_Nodes = [(6, 0)], m_Perm = [0], m_Sign = 1\<rparr> 0")
  case None
  then show ?thesis
    by (simp add: MinHeap_new_single IncreaseKey_def Size_def add_to_key_def MoveDown_def)
next
  case (Some h')
  from MoveDown_loop_root_stuck [OF Some] show ?thesis
    by (simp add: Size_def pick_child_def)
qed

section \<open>Duplicate adjacents\<close>

lemma add_new_first_occurrences:
  "add_new row js = row @ first_occurrences (filter (\<lambda>y. y \<notin> set row) js)"
proof (induction js arbitrary: row)
  case Nil
  then show ?case by simp
next
  case (Cons j js)
  show ?case
  proof (cases "j \<in> set row")
    case True
    then show ?thesis by (simp add: Cons.IH)
  next
    case False
    have "filter (\<lambda>y. y \<notin> set (row @ [j])) js = filter (\<lambda>y. y \<noteq> j) (filter (\<lambda>y. y \<notin> set row) js)"
      by (induction js) auto
    with False show ?thesis by (simp add: Cons.IH)
  qed
qed

lemma try_AddAdjacent_row:
  assumes "0 \<le> fst c" "fst c < NumNodes al"
  shows "m_Adj (try_AddAdjacent c al)
           = (m_Adj al)[nat (fst c) := add_new (m_Adj al ! nat (fst c)) [snd c]]"
    and "m_NConnections (try_AddAdjacent c al) = m_NConnections al"
  using assms
  by (auto simp: try_AddAdjacent_def AddAdjacent_def Let_def std_find_end NumNodes_def)

lemma add_new_append: "add_new row (js @ ks) = add_new (add_new row js) ks"
  by (induction js arbitrary: row) auto

lemma fold_try_AddAdjacent:
  assumes "\<forall>c \<in> set Connections. 0 \<le> fst c \<and> fst c < NumNodes al"
  shows "length (m_Adj (fold try_AddAdjacent Connections al)) = length (m_Adj al)
     \<and> m_NConnections (fold try_AddAdjacent Connections al) = m_NConnections al
     \<and> (\<forall>k < length (m_Adj al). m_Adj (fold try_AddAdjacent Connections al) ! k
           = add_new (m_Adj al ! k) (adjacents_of Connections (int k)))"
  using assms
proof (induction Connections arbitrary: al)
  case Nil
  then show ?case by (simp add: adjacents_of_def)
next
  case (Cons c cs)
  let ?al = "try_AddAdjacent c al"
  from Cons.prems have c: "0 \<le> fst c" "fst c < NumNodes al" by auto
  have adj: "m_Adj ?al = (m_Adj al)[nat (fst c) := add_new (m_Adj al ! nat (fst c)) [snd c]]"
    and cnt: "m_NConnections ?al = m_NConnections al"
    using try_AddAdjacent_row [OF c] by auto
  have len: "length (m_Adj ?al) = length (m_Adj al)" by (simp add: adj)
  then have nn: "NumNodes ?al = NumNodes al" by (simp add: NumNodes_def)
  have "\<forall>c \<in> set cs. 0 \<le> fst c \<and> fst c < NumNodes ?al"
    using Cons.prems nn by auto
  from Cons.IH [OF this]
  have IH: "length (m_Adj (fold try_AddAdjacent cs ?al)) = length (m_Adj ?al)"
    "m_NConnections (fold try_AddAdjacent cs ?al) = m_NConnections ?al"
    "\<And>k. k < length (m_Adj ?al) \<Longrightarrow> m_Adj (fold try_AddAdjacent cs ?al) ! k
           = add_new (m_Adj ?al ! k) (adjacents_of cs (int k))"
    by auto
  have "m_Adj (fold try_AddAdjacent (c # cs) al) ! k
           = add_new (m_Adj al ! k) (adjacents_of (c # cs) (int k))"
    if k: "k < length (m_Adj al)" for k
  proof (cases "k = nat (fst c)")
    case True
    with c have "int k = fst c" by simp
    with True k show ?thesis
      using IH(3) [of k] by (simp add: len adj adjacents_of_def)
  next
    case False
    with c have "int k \<noteq> fst c" by auto
    with False k show ?thesis
      using IH(3) [of k] by (simp add: len adj adjacents_of_def)
  qed
  with IH len cnt show ?case by simp
qed

lemma int_wrap_in_range:
  "- 2147483648 \<le> x \<Longrightarrow> x \<le> 2147483647 \<Longrightarrow> int_wrap x = x"
  by (simp add: int_wrap_def)

lemma count_nodes_fold:
  assumes "\<forall>c \<in> set cs. 0 \<le> fst c \<and> fst c < INT_MAX"
  shows "n \<le> fold (\<lambda>c NNodes. max NNodes (int_wrap (fst c + 1))) cs n
   \<and> (\<forall>c \<in> set cs. fst c < fold (\<lambda>c NNodes. max NNodes (int_wrap (fst c + 1))) cs n)
   \<and> (fold (\<lambda>c NNodes. max NNodes (int_wrap (fst c + 1))) cs n = n
        \<or> (\<exists>c \<in> set cs. fold (\<lambda>c NNodes. max NNodes (int_wrap (fst c + 1))) cs n = fst c + 1))"
  using assms
proof (induction cs arbitrary: n)
  case Nil
  then show ?case by simp
next
  case (Cons c cs)
  from Cons.prems have "int_wrap (fst c + 1) = fst c + 1"
    by (intro int_wrap_in_range) (auto simp: INT_MAX_def)
  moreover from Cons.prems have "\<forall>c \<in> set cs. 0 \<le> fst c \<and> fst c < INT_MAX" by simp
  note Cons.IH [OF this, of "max n (fst c + 1)"]
  ultimately show ?case by (auto simp: max_def split: if_splits)
qed

lemma count_nodes_bound:
  assumes "\<forall>c \<in> set cs. 0 \<le> fst c \<and> fst c < INT_MAX"
  shows "0 \<le> count_nodes cs" and "c \<in> set cs \<Longrightarrow> fst c < count_nodes cs"
  using count_nodes_fold [OF assms, of 0] by (auto simp: count_nodes_def)

lemma count_nodes_Max:
  assumes "\<forall>c \<in> set cs. 0 \<le> fst c \<and> fst c < INT_MAX"
  shows "count_nodes cs = (if cs = [] then 0 else Max (fst ` set cs) + 1)"
proof (cases "cs = []")
  case True
  then show ?thesis by (simp add: count_nodes_def)
next
  case False
  then obtain c where c: "c \<in> set cs" by (cases cs) auto
  with assms count_nodes_bound(2) [OF assms c] have "count_nodes cs \<noteq> 0" by auto
  with count_nodes_fold [OF assms, of 0]
  obtain c0 where c0: "c0 \<in> set cs" "count_nodes cs = fst c0 + 1"
    by (auto simp: count_nodes_def)
  have "Max (fst ` set cs) = fst c0"
  proof (rule Max_eqI)
    show "finite (fst ` set cs)" by simp
    show "fst c0 \<in> fst ` set cs" using c0 by simp
    fix y assume "y \<in> fst ` set cs"
    then obtain c' where "c' \<in> set cs" "y = fst c'" by auto
    with count_nodes_bound(2) [OF assms, of c'] c0 show "y \<le> fst c0" by simp
  qed
  with c0 False show ?thesis by simp
qed

text \<open>A pair with the node \<open>INT_MAX\<close> alone: the sum wraps, no node is counted and the
  list is built empty.\<close>

lemma AdjacencyList_Connections_INT_MAX:
  "AdjacencyList_Connections [(2147483647, 1)] = \<lparr>m_Adj = [], m_NConnections = 1\<rparr>"
  by (simp add: AdjacencyList_Connections_def count_nodes_def int_wrap_def resize_def)

text \<open>
  Claim C8. \<open>AddAdjacent(i, j)\<close> on a valid node \<open>i\<close> that has \<open>j\<close> among its adjacents
  signals FailedAssertion (an error result: the object is not written). The constructor
  from a list of connections whose nodes are non-negative and below \<open>INT_MAX\<close> does not
  fail on a repeated pair: it builds \<open>max(node) + 1\<close> rows (none for the empty list), and
  the row of every node, in particular of every node named in the list, holds the distinct
  adjacents of the node in the order of their first occurrences in the list.
\<close>

theorem duplicate_adjacents:
  "(0 \<le> i \<and> i < NumNodes al \<and> j \<in> set (m_Adj al ! nat i)
      \<longrightarrow> AddAdjacent al i j = Inl AssertionError)
   \<and> ((\<forall>c \<in> set Connections. 0 \<le> fst c \<and> fst c < INT_MAX) \<longrightarrow>
        NumNodes (AdjacencyList_Connections Connections)
          = (if Connections = [] then 0 else Max (fst ` set Connections) + 1)
        \<and> (\<forall>c \<in> set Connections.
              fst c < NumNodes (AdjacencyList_Connections Connections)
              \<and> m_Adj (AdjacencyList_Connections Connections) ! nat (fst c)
                  = first_occurrences (adjacents_of Connections (fst c)))
        \<and> (\<forall>k. 0 \<le> k \<and> k < NumNodes (AdjacencyList_Connections Connections) \<longrightarrow>
              m_Adj (AdjacencyList_Connections Connections) ! nat k
                = first_occurrences (adjacents_of Connections k)))"
proof (intro conjI impI)
  assume "0 \<le> i \<and> i < NumNodes al \<and> j \<in> set (m_Adj al ! nat i)"
  then show "AddAdjacent al i j = Inl AssertionError"
    by (simp add: AddAdjacent_def Let_def std_find_end)
next
  assume ids: "\<forall>c \<in> set Connections. 0 \<le> fst c \<and> fst c < INT_MAX"
  let ?R = "AdjacencyList_Connections Connections"
  let ?n = "count_nodes Connections"
  let ?al0 = "\<lparr>m_Adj = resize [] (nat ?n) [], m_NConnections = int (length Connections)\<rparr>"
  have n0: "0 \<le> ?n" by (rule count_nodes_bound(1) [OF ids])
  have len0: "length (m_Adj ?al0) = nat ?n" by (simp add: resize_def)
  have "\<forall>c \<in> set Connections. 0 \<le> fst c \<and> fst c < NumNodes ?al0"
    using ids count_nodes_bound(2) [OF ids] n0 by (auto simp: NumNodes_def resize_def)
  note F = fold_try_AddAdjacent [OF this]
  have nodes: "NumNodes ?R = ?n"
    using F n0 by (auto simp: AdjacencyList_Connections_def Let_def NumNodes_def resize_def)
  have rows: "m_Adj ?R ! nat k = first_occurrences (adjacents_of Connections k)"
    if k: "0 \<le> k" "k < ?n" for k
  proof -
    from k have "nat k < length (m_Adj ?al0)" using len0 by simp
    with F have "m_Adj (fold try_AddAdjacent Connections ?al0) ! nat k
        = add_new (m_Adj ?al0 ! nat k) (adjacents_of Connections (int (nat k)))"
      by blast
    moreover have "m_Adj ?al0 ! nat k = []" using k by (simp add: resize_def)
    ultimately show ?thesis
      using k by (simp add: AdjacencyList_Connections_def Let_def add_new_first_occurrences)
  qed
  show "NumNodes ?R = (if Connections = [] then 0 else Max (fst ` set Connections) + 1)"
    using nodes count_nodes_Max [OF ids] by simp
  show "\<forall>c \<in> set Connections. fst c < NumNodes ?R
      \<and> m_Adj ?R ! nat (fst c) = first_occurrences (adjacents_of Connections (fst c))"
    using ids count_nodes_bound(2) [OF ids] rows nodes by auto
  show "\<forall>k. 0 \<le> k \<and> k < NumNodes ?R \<longrightarrow>
          m_Adj ?R ! nat k = first_occurrences (adjacents_of Connections k)"
    using rows nodes by auto
qed

theorem duplicate_adjacents_witness:
  "(0 \<le> (0::int) \<and> 0 < NumNodes \<lparr>m_Adj = [[5]], m_NConnections = 1\<rparr>
      \<and> 5 \<in> set (m_Adj \<lparr>m_Adj = [[5]], m_NConnections = 1\<rparr> ! nat 0)
      \<and> AddAdjacent \<lparr>m_Adj = [[5]], m_NConnections = 1\<rparr> 0 5 = Inl AssertionError)
   \<and> list_all (\<lambda>c. 0 \<le> fst c \<and> fst c < INT_MAX) [(0::int, 5::int), (1, 2), (0, 5), (0, 3)]
   \<and> NumNodes (AdjacencyList_Connections [(0, 5), (1, 2), (0, 5), (0, 3)]) = 2
   \<and> m_Adj (AdjacencyList_Connections [(0, 5), (1, 2), (0, 5), (0, 3)]) ! nat 0 = [5, 3]
   \<and> m_Adj (AdjacencyList_Connections [(0, 5), (1, 2), (0, 5), (0, 3)]) ! nat 1 = [2]"
proof -
  have a: "0 \<le> (0::int) \<and> 0 < NumNodes \<lparr>m_Adj = [[5]], m_NConnections = 1\<rparr>
      \<and> 5 \<in> set (m_Adj \<lparr>m_Adj = [[5]], m_NConnections = 1\<rparr> ! nat 0)"
    by (simp add: NumNodes_def)
  have b: "\<forall>c \<in> set [(0::int, 5::int), (1, 2), (0, 5), (0, 3)]. 0 \<le> fst c \<and> fst c < INT_MAX"
    by (simp add: INT_MAX_def)
  note T = duplicate_adjacents [of 0 "\<lparr>m_Adj = [[5]], m_NConnections = 1\<rparr>" 5
      "[(0, 5), (1, 2), (0, 5), (0, 3)]"]
  from T a have 1: "AddAdjacent \<lparr>m_Adj = [[5]], m_NConnections = 1\<rparr> 0 5 = Inl AssertionError"
    by blast
  from T b have 2: "NumNodes (AdjacencyList_Connections [(0, 5), (1, 2), (0, 5), (0, 3)])
      = (if [(0::int, 5::int), (1, 2), (0, 5), (0, 3)] = [] then 0
         else Max (fst ` set [(0::int, 5::int), (1, 2), (0, 5), (0, 3)]) + 1)"
    and 3: "\<And>c. c \<in> set [(0::int, 5::int), (1, 2), (0, 5), (0, 3)] \<Longrightarrow>
       m_Adj (AdjacencyList_Connections [(0, 5), (1, 2), (0, 5), (0, 3)]) ! nat (fst c)
         = first_occurrences (adjacents_of [(0, 5), (1, 2), (0, 5), (0, 3)] (fst c))"
    by blast+
  from 2 have nn: "NumNodes (AdjacencyList_Connections [(0, 5), (1, 2), (0, 5), (0, 3)]) = 2"
    by simp
  from 3 [of "(0, 5)"] 3 [of "(1, 2)"] a b 1 nn show ?thesis
    by (simp add: adjacents_of_def INT_MAX_def)
qed

section \<open>Conversion to the compact layout and back\<close>

lemma has_rows_AdjacencyList: "has_rows (IsAdjacencyList M) (m_Adj M)"
  by (simp add: has_rows_def NumNodes_def NumAdjacents_def GetAdjacent_def)

lemma flat_of_Idx:
  assumes "flat_of rows cal" "k \<le> length rows"
  shows "cm_Idx cal ! k = int (length (concat (take k rows)))"
  using assms(2)
proof (induction k)
  case 0
  with assms(1) show ?case by (simp add: flat_of_def)
next
  case (Suc k)
  then have k: "k < length rows" by simp
  with assms(1) have "cm_Idx cal ! Suc k = cm_Idx cal ! k + int (length (rows ! k))"
    by (simp add: flat_of_def)
  with Suc k show ?case by (simp add: take_Suc_conv_app_nth)
qed

lemma concat_nth_row:
  assumes "k < length rows" "j < length (rows ! k)"
  shows "concat rows ! (length (concat (take k rows)) + j) = rows ! k ! j"
proof -
  have "rows = take k rows @ rows ! k # drop (Suc k) rows"
    using assms(1) by (simp add: id_take_nth_drop)
  then have "concat rows = concat (take k rows) @ rows ! k @ concat (drop (Suc k) rows)"
    by (metis concat.simps(2) concat_append)
  with assms(2) show ?thesis by (simp add: nth_append)
qed

lemma has_rows_flat_of:
  assumes "flat_of rows cal"
  shows "has_rows (IsCompatAdjacencyList cal) rows"
proof -
  have nn: "CAL_NumNodes cal = int (length rows)"
    using assms by (simp add: CAL_NumNodes_def flat_of_def)
  have na: "CAL_NumAdjacents cal (int i) = Inr (int (length (rows ! i)))"
    if "i < length rows" for i
  proof -
    have "cm_Idx cal ! Suc i = cm_Idx cal ! i + int (length (rows ! i))"
      using assms that by (simp add: flat_of_def)
    moreover have "nat (int i + 1) = Suc i" by simp
    ultimately show ?thesis using that nn by (simp add: CAL_NumAdjacents_def)
  qed
  have ga: "CAL_GetAdjacent cal (int i) (int j) = Inr (rows ! i ! j)"
    if i: "i < length rows" and j: "j < length (rows ! i)" for i j
  proof -
    have "cm_Idx cal ! i = int (length (concat (take i rows)))"
      using flat_of_Idx [OF assms] i by simp
    then have "nat (cm_Idx cal ! i + int j) = length (concat (take i rows)) + j"
      by simp
    moreover have "cm_Adj cal = concat rows" using assms by (simp add: flat_of_def)
    ultimately show ?thesis
      using i j nn na [OF i] concat_nth_row [OF i j]
      by (simp add: CAL_GetAdjacent_def)
  qed
  from nn na ga show ?thesis by (simp add: has_rows_def)
qed

lemma push_adjacents_row:
  assumes "\<forall>j' < length row. BAL_GetAdjacent AL i (int j') = Inr (row ! j')"
    and "0 \<le> j" "j \<le> int (length row)" "NAdjs = int (length row)"
  shows "push_adjacents AL i NAdjs j vec = Inr (vec @ drop (nat j) row)"
  using assms
proof (induction AL i NAdjs j vec rule: push_adjacents.induct)
  case (1 AL i NAdjs j vec)
  show ?case
  proof (cases "j < NAdjs")
    case True
    with "1.prems" have jl: "nat j < length row" by simp
    with "1.prems" have g: "BAL_GetAdjacent AL i j = Inr (row ! nat j)"
      by (metis int_nat_eq)
    have "push_adjacents AL i NAdjs (j + 1) (vec @ [row ! nat j])
        = Inr ((vec @ [row ! nat j]) @ drop (nat (j + 1)) row)"
      using "1.prems" True by (intro "1.IH" [OF True g]) auto
    moreover have "nat (j + 1) = Suc (nat j)" using "1.prems" by simp
    ultimately show ?thesis
      using True g jl by (simp add: Cons_nth_drop_Suc)
  next
    case False
    with "1.prems" show ?thesis by simp
  qed
qed

lemma push_adjacents_has_rows:
  assumes "has_rows AL rows" "i < length rows"
  shows "push_adjacents AL (int i) (int (length (rows ! i))) 0 vec = Inr (vec @ rows ! i)"
proof -
  have "\<forall>j' < length (rows ! i). BAL_GetAdjacent AL (int i) (int j') = Inr (rows ! i ! j')"
    using assms by (simp add: has_rows_def)
  from push_adjacents_row [OF this, of 0 "int (length (rows ! i))" vec]
  show ?thesis by simp
qed

lemma fill_rows_has_rows:
  assumes "has_rows AL rows" "0 \<le> i" "i \<le> int (length rows)" "length adj = length rows"
    "NNodes = int (length rows)"
  shows "fill_rows AL NNodes i adj
     = Inr (map (\<lambda>k. if k < nat i then adj ! k else adj ! k @ rows ! k) [0..<length rows])"
  using assms
proof (induction AL NNodes i adj rule: fill_rows.induct)
  case (1 AL NNodes i adj)
  show ?case
  proof (cases "i < NNodes")
    case True
    with "1.prems" have il: "nat i < length rows" by simp
    have ii: "int (nat i) = i" using "1.prems" by simp
    have na: "BAL_NumAdjacents AL i = Inr (int (length (rows ! nat i)))"
      using "1.prems"(1) il ii by (metis has_rows_def)
    have pa: "push_adjacents AL i (int (length (rows ! nat i))) 0 (adj ! nat i)
        = Inr (adj ! nat i @ rows ! nat i)"
      using push_adjacents_has_rows [OF "1.prems"(1) il] ii by simp
    let ?adj = "adj[nat i := adj ! nat i @ rows ! nat i]"
    have "fill_rows AL NNodes (i + 1) ?adj
       = Inr (map (\<lambda>k. if k < nat (i + 1) then ?adj ! k else ?adj ! k @ rows ! k) [0..<length rows])"
      using "1.prems" True by (intro "1.IH" [OF True na pa]) auto
    moreover have "(if k < nat (i + 1) then ?adj ! k else ?adj ! k @ rows ! k)
        = (if k < nat i then adj ! k else adj ! k @ rows ! k)" if "k < length rows" for k
      using that "1.prems" by (auto simp: nth_list_update)
    ultimately show ?thesis
      using True na pa by (simp cong: map_cong)
  next
    case False
    with "1.prems" have "nat i = length rows" by simp
    with "1.prems" have "map (\<lambda>k. if k < nat i then adj ! k else adj ! k @ rows ! k)
        [0..<length rows] = adj"
      by (intro nth_equalityI) simp_all
    with False show ?thesis by simp
  qed
qed

lemma AdjacencyList_copy_Compat:
  assumes "has_rows (IsCompatAdjacencyList cal) rows"
  shows "AdjacencyList_copy (IsCompatAdjacencyList cal)
     = Inr \<lparr>m_Adj = rows, m_NConnections = CAL_NumConnections cal\<rparr>"
proof -
  let ?AL = "IsCompatAdjacencyList cal"
  have nn: "BAL_NumNodes ?AL = int (length rows)" using assms by (simp add: has_rows_def)
  let ?adj = "resize [] (length rows) ([]::int list)"
  have "fill_rows ?AL (int (length rows)) 0 ?adj
     = Inr (map (\<lambda>k. if k < nat 0 then ?adj ! k else ?adj ! k @ rows ! k) [0..<length rows])"
    by (rule fill_rows_has_rows [OF assms]) (simp_all add: resize_def)
  moreover have "map (\<lambda>k. if k < nat 0 then ?adj ! k else ?adj ! k @ rows ! k) [0..<length rows] = rows"
    by (intro nth_equalityI) (simp_all add: resize_def)
  ultimately have "fill_rows ?AL (int (length rows)) 0 ?adj = Inr rows" by simp
  then show ?thesis
    using nn by (auto simp: AdjacencyList_copy_def use_abstract_interface_def Let_def resize_def)
qed


lemma fill_flat_has_rows:
  assumes "has_rows AL rows" "0 \<le> i" "i \<le> int (length rows)"
    "length idx = Suc (length rows)" "NNodes = int (length rows)"
  shows "\<exists>idx'. fill_flat AL NNodes i (adj, idx) = Inr (adj @ concat (drop (nat i) rows), idx')
     \<and> length idx' = length idx
     \<and> (\<forall>k \<le> nat i. idx' ! k = idx ! k)
     \<and> (\<forall>k. nat i \<le> k \<and> k < length rows \<longrightarrow>
           idx' ! Suc k = idx' ! k + int (length (rows ! k)))"
  using assms
proof (induction AL NNodes i "(adj, idx)" arbitrary: adj idx rule: fill_flat.induct)
  case (1 AL NNodes i adj idx)
  show ?case
  proof (cases "i < NNodes")
    case True
    with "1.prems" have il: "nat i < length rows" by simp
    have ii: "int (nat i) = i" using "1.prems" by simp
    have suc: "nat (i + 1) = Suc (nat i)" using "1.prems" by simp
    have na: "BAL_NumAdjacents AL i = Inr (int (length (rows ! nat i)))"
      using "1.prems"(1) il ii by (metis has_rows_def)
    have pa: "push_adjacents AL i (int (length (rows ! nat i))) 0 adj
        = Inr (adj @ rows ! nat i)"
      using push_adjacents_has_rows [OF "1.prems"(1) il] ii by simp
    let ?idx = "idx[nat (i + 1) := idx ! nat i + int (length (rows ! nat i))]"
    have "\<exists>idx'. fill_flat AL NNodes (i + 1) (adj @ rows ! nat i, ?idx)
          = Inr ((adj @ rows ! nat i) @ concat (drop (nat (i + 1)) rows), idx')
       \<and> length idx' = length ?idx
       \<and> (\<forall>k \<le> nat (i + 1). idx' ! k = ?idx ! k)
       \<and> (\<forall>k. nat (i + 1) \<le> k \<and> k < length rows \<longrightarrow>
             idx' ! Suc k = idx' ! k + int (length (rows ! k)))"
      using "1.prems" True by (intro "1.hyps" [OF True na pa]) auto
    then obtain idx' where
      run: "fill_flat AL NNodes (i + 1) (adj @ rows ! nat i, ?idx)
          = Inr ((adj @ rows ! nat i) @ concat (drop (Suc (nat i)) rows), idx')"
      and len: "length idx' = length idx"
      and low: "\<And>k. k \<le> Suc (nat i) \<Longrightarrow> idx' ! k = ?idx ! k"
      and high: "\<And>k. Suc (nat i) \<le> k \<Longrightarrow> k < length rows \<Longrightarrow>
             idx' ! Suc k = idx' ! k + int (length (rows ! k))"
      unfolding suc by auto
    have cat: "concat (drop (nat i) rows) = rows ! nat i @ concat (drop (Suc (nat i)) rows)"
      using il by (simp add: Cons_nth_drop_Suc [symmetric])
    have r1: "fill_flat AL NNodes i (adj, idx) = Inr (adj @ concat (drop (nat i) rows), idx')"
      using True na pa run cat by simp
    have r2: "idx' ! k = idx ! k" if "k \<le> nat i" for k
      using low [of k] that by (simp add: suc)
    have at_i: "idx' ! Suc (nat i) = idx' ! nat i + int (length (rows ! nat i))"
      using low [of "Suc (nat i)"] r2 [of "nat i"] il "1.prems" by (simp add: suc)
    have r3: "idx' ! Suc k = idx' ! k + int (length (rows ! k))"
      if "nat i \<le> k" "k < length rows" for k
    proof (cases "k = nat i")
      case True
      with at_i show ?thesis by simp
    next
      case False
      with that high [of k] show ?thesis by simp
    qed
    from r1 len r2 r3 show ?thesis by blast
  next
    case False
    with "1.prems" have "nat i = length rows" by simp
    with False show ?thesis by simp
  qed
qed

lemma CompatAdjacencyList_copy_AdjacencyList:
  "\<exists>cal. CompatAdjacencyList_copy (IsAdjacencyList M) = Inr cal \<and> flat_of (m_Adj M) cal"
proof -
  let ?AL = "IsAdjacencyList M" and ?rows = "m_Adj M"
  let ?idx = "resize [] (nat (NumNodes M + 1)) (0::int)"
  have len: "length ?idx = Suc (length ?rows)"
    by (simp add: resize_def NumNodes_def nat_add_distrib)
  from fill_flat_has_rows [OF has_rows_AdjacencyList _ _ len, of 0 "NumNodes M" "[]"]
  obtain idx' where
    run: "fill_flat ?AL (NumNodes M) 0 ([], ?idx) = Inr (concat ?rows, idx')"
    and l: "length idx' = length ?idx"
    and low: "\<forall>k \<le> nat 0. idx' ! k = ?idx ! k"
    and high: "\<forall>k. nat 0 \<le> k \<and> k < length ?rows \<longrightarrow>
           idx' ! Suc k = idx' ! k + int (length (?rows ! k))"
    by (auto simp: NumNodes_def)
  have "idx' ! 0 = 0" using low by (simp add: resize_def NumNodes_def nat_add_distrib)
  with l len high have "flat_of ?rows \<lparr>cm_Adj = concat ?rows, cm_Idx = idx'\<rparr>"
    by (simp add: flat_of_def)
  moreover have "CompatAdjacencyList_copy ?AL = Inr \<lparr>cm_Adj = concat ?rows, cm_Idx = idx'\<rparr>"
    using run by (simp add: CompatAdjacencyList_copy_def)
  ultimately show ?thesis by blast
qed

text \<open>
  Claim C6. For every \<open>cut::AdjacencyList\<close> \<open>M\<close>, constructing a
  \<open>cut::CompatAdjacencyList\<close> \<open>C\<close> from \<open>M\<close> and a new \<open>cut::AdjacencyList\<close> \<open>M'\<close> from
  \<open>C\<close> succeeds, and \<open>M'\<close> has the number of nodes of \<open>M\<close> and answers every
  \<open>NumAdjacents\<close> and \<open>GetAdjacent\<close> call as \<open>M\<close> does.
\<close>

theorem round_trip_through_compact:
  "\<exists>C M'. CompatAdjacencyList_copy (IsAdjacencyList M) = Inr C
      \<and> AdjacencyList_copy (IsCompatAdjacencyList C) = Inr M'
      \<and> NumNodes M' = NumNodes M
      \<and> (\<forall>i. NumAdjacents M' i = NumAdjacents M i)
      \<and> (\<forall>i idx. GetAdjacent M' i idx = GetAdjacent M i idx)"
proof -
  from CompatAdjacencyList_copy_AdjacencyList obtain C where
    C: "CompatAdjacencyList_copy (IsAdjacencyList M) = Inr C" and f: "flat_of (m_Adj M) C"
    by blast
  let ?M' = "\<lparr>m_Adj = m_Adj M, m_NConnections = CAL_NumConnections C\<rparr>"
  have M': "AdjacencyList_copy (IsCompatAdjacencyList C) = Inr ?M'"
    by (rule AdjacencyList_copy_Compat [OF has_rows_flat_of [OF f]])
  have "NumNodes ?M' = NumNodes M" by (simp add: NumNodes_def)
  moreover have "NumAdjacents ?M' i = NumAdjacents M i" for i
    by (simp add: NumAdjacents_def NumNodes_def)
  moreover have "GetAdjacent ?M' i idx = GetAdjacent M i idx" for i idx
    by (simp add: GetAdjacent_def NumAdjacents_def NumNodes_def)
  ultimately show ?thesis using C M' by blast
qed

theorem round_trip_through_compact_witness:
  "\<exists>C M'. CompatAdjacencyList_copy
        (IsAdjacencyList \<lparr>m_Adj = [[7, 8], [], [9]], m_NConnections = 3\<rparr>) = Inr C
      \<and> AdjacencyList_copy (IsCompatAdjacencyList C) = Inr M'
      \<and> NumNodes M' = 3
      \<and> NumAdjacents M' 1 = Inr 0
      \<and> GetAdjacent M' 0 1 = Inr 8"
proof -
  from round_trip_through_compact [of "\<lparr>m_Adj = [[7, 8], [], [9]], m_NConnections = 3\<rparr>"]
  obtain C M' where
    "CompatAdjacencyList_copy
        (IsAdjacencyList \<lparr>m_Adj = [[7, 8], [], [9]], m_NConnections = 3\<rparr>) = Inr C"
    "AdjacencyList_copy (IsCompatAdjacencyList C) = Inr M'"
    "NumNodes M' = NumNodes \<lparr>m_Adj = [[7, 8], [], [9]], m_NConnections = 3\<rparr>"
    "NumAdjacents M' 1 = NumAdjacents \<lparr>m_Adj = [[7, 8], [], [9]], m_NConnections = 3\<rparr> 1"
    "GetAdjacent M' 0 1 = GetAdjacent \<lparr>m_Adj = [[7, 8], [], [9]], m_NConnections = 3\<rparr> 0 1"
    by blast
  then show ?thesis
    by (intro exI [of _ C] exI [of _ M'])
       (simp add: NumNodes_def NumAdjacents_def GetAdjacent_def)
qed

section \<open>The heap invariant\<close>

subsection \<open>Swapping two nodes\<close>

lemma heap_property_key_at:
  "heap_property h \<longleftrightarrow> (\<forall>v \<in> {1..<Size h}. key_at h (v div 2) \<le> key_at h v)"
  by (simp add: heap_property_def key_at_def)

lemma Size_swap_nodes [simp]: "Size (swap_nodes h a b) = Size h"
  by (simp add: swap_nodes_def Size_def Let_def)

lemma m_Sign_swap_nodes [simp]: "m_Sign (swap_nodes h a b) = m_Sign h"
  by (simp add: swap_nodes_def Let_def)

lemma key_at_swap_nodes:
  assumes "a < Size h" "b < Size h" "w < Size h"
  shows "key_at (swap_nodes h a b) w
     = (if w = b then key_at h a else if w = a then key_at h b else key_at h w)"
  using assms by (simp add: swap_nodes_def key_at_def Size_def Let_def nth_list_update)

lemma m_Nodes_swap_nodes:
  "m_Nodes (swap_nodes h a b) = (m_Nodes h)[a := m_Nodes h ! b, b := m_Nodes h ! a]"
  by (simp add: swap_nodes_def Let_def)

lemma m_Perm_swap_nodes:
  assumes "well_formed h" "a < Size h" "b < Size h" "a \<noteq> b"
  shows "m_Perm (swap_nodes h a b)
     = (m_Perm h)[snd (m_Nodes h ! b) := a, snd (m_Nodes h ! a) := b]"
  using assms
  by (simp add: swap_nodes_def Let_def well_formed_def nodes_inverse_def Size_def)

lemma swap_nodes_well_formed:
  assumes wf: "well_formed h" and a: "a < Size h" and b: "b < Size h"
  shows "well_formed (swap_nodes h a b)"
proof (cases "a = b")
  case True
  with wf show ?thesis by (simp add: swap_nodes_same)
next
  case False
  let ?n = "Size h" and ?N = "m_Nodes h" and ?P = "m_Perm h"
  let ?eA = "snd (?N ! a)" and ?eB = "snd (?N ! b)"
  from wf have lenP: "length ?P = ?n"
    and pin: "\<And>e. e < ?n \<Longrightarrow> ?P ! e < ?n \<and> snd (?N ! (?P ! e)) = e"
    and nin: "\<And>v. v < ?n \<Longrightarrow> snd (?N ! v) < ?n \<and> ?P ! snd (?N ! v) = v"
    by (auto simp: well_formed_def perm_inverse_def nodes_inverse_def)
  have eA: "?eA < ?n" "?P ! ?eA = a" and eB: "?eB < ?n" "?P ! ?eB = b"
    using nin a b by auto
  have ne: "?eA \<noteq> ?eB" using eA eB False by auto
  have N': "m_Nodes (swap_nodes h a b) = ?N[a := ?N ! b, b := ?N ! a]"
    by (rule m_Nodes_swap_nodes)
  have P': "m_Perm (swap_nodes h a b) = ?P[?eB := a, ?eA := b]"
    by (rule m_Perm_swap_nodes [OF wf a b False])
  have lenN: "length ?N = ?n" by (simp add: Size_def)
  have 1: "length (m_Perm (swap_nodes h a b)) = Size (swap_nodes h a b)"
    by (simp add: P' lenP)
  have 2: "m_Perm (swap_nodes h a b) ! e < ?n
      \<and> snd (m_Nodes (swap_nodes h a b) ! (m_Perm (swap_nodes h a b) ! e)) = e"
    if e: "e < ?n" for e
  proof -
    consider "e = ?eA" | "e = ?eB" | "e \<noteq> ?eA" "e \<noteq> ?eB" by blast
    then show ?thesis
    proof cases
      case 1
      then show ?thesis using a b eA eB ne lenP lenN False by (simp add: N' P')
    next
      case 2
      then show ?thesis using a b eA eB ne lenP lenN False by (simp add: N' P')
    next
      case 3
      with pin [OF e] eA eB have "?P ! e \<noteq> a" "?P ! e \<noteq> b" by auto
      with 3 pin [OF e] show ?thesis using lenP lenN e by (simp add: N' P')
    qed
  qed
  have 3: "snd (m_Nodes (swap_nodes h a b) ! v) < ?n
      \<and> m_Perm (swap_nodes h a b) ! snd (m_Nodes (swap_nodes h a b) ! v) = v"
    if v: "v < ?n" for v
  proof -
    consider "v = a" | "v = b" | "v \<noteq> a" "v \<noteq> b" by blast
    then show ?thesis
    proof cases
      case 1
      then show ?thesis using a b eA eB ne lenP lenN False by (simp add: N' P')
    next
      case 2
      then show ?thesis using a b eA eB ne lenP lenN False by (simp add: N' P')
    next
      case 3
      with nin [OF v] eA eB have "snd (?N ! v) \<noteq> ?eA" "snd (?N ! v) \<noteq> ?eB" by auto
      with 3 nin [OF v] show ?thesis using lenP lenN v by (simp add: N' P')
    qed
  qed
  from 1 2 3 show ?thesis
    by (simp add: well_formed_def perm_inverse_def nodes_inverse_def)
qed

lemma swap_nodes_key_of:
  assumes wf: "well_formed h" and a: "a < Size h" and b: "b < Size h" and e: "e < Size h"
  shows "key_of (swap_nodes h a b) e = key_of h e"
proof (cases "a = b")
  case True
  then show ?thesis by (simp add: swap_nodes_same)
next
  case False
  let ?n = "Size h" and ?N = "m_Nodes h" and ?P = "m_Perm h"
  let ?eA = "snd (?N ! a)" and ?eB = "snd (?N ! b)"
  from wf have lenP: "length ?P = ?n"
    and pin: "\<And>e. e < ?n \<Longrightarrow> ?P ! e < ?n \<and> snd (?N ! (?P ! e)) = e"
    and nin: "\<And>v. v < ?n \<Longrightarrow> snd (?N ! v) < ?n \<and> ?P ! snd (?N ! v) = v"
    by (auto simp: well_formed_def perm_inverse_def nodes_inverse_def)
  have eA: "?eA < ?n" "?P ! ?eA = a" and eB: "?eB < ?n" "?P ! ?eB = b"
    using nin a b by auto
  have ne: "?eA \<noteq> ?eB" using eA eB False by auto
  have N': "m_Nodes (swap_nodes h a b) = ?N[a := ?N ! b, b := ?N ! a]"
    by (rule m_Nodes_swap_nodes)
  have P': "m_Perm (swap_nodes h a b) = ?P[?eB := a, ?eA := b]"
    by (rule m_Perm_swap_nodes [OF wf a b False])
  have lenN: "length ?N = ?n" by (simp add: Size_def)
  consider "e = ?eA" | "e = ?eB" | "e \<noteq> ?eA" "e \<noteq> ?eB" by blast
  then show ?thesis
  proof cases
    case 1
    then show ?thesis using a b eA eB ne lenP lenN False by (simp add: N' P' key_of_def)
  next
    case 2
    then show ?thesis using a b eA eB ne lenP lenN False by (simp add: N' P' key_of_def)
  next
    case 3
    with pin [OF e] eA eB have "?P ! e \<noteq> a" "?P ! e \<noteq> b" by auto
    with 3 pin [OF e] show ?thesis using lenP lenN e by (simp add: N' P' key_of_def)
  qed
qed

subsection \<open>One round of the sift loops\<close>

lemma heap_except_up_root: "heap_except_up h 0 \<Longrightarrow> heap_property h"
  by (auto simp: heap_except_up_def heap_property_key_at)

lemma heap_except_up_done:
  assumes "heap_except_up h v" "key_at h (v div 2) < key_at h v"
  shows "heap_property h"
  unfolding heap_property_key_at
proof
  fix w assume "w \<in> {1..<Size h}"
  with assms show "key_at h (w div 2) \<le> key_at h w"
    by (cases "w = v") (auto simp: heap_except_up_def)
qed

lemma heap_except_up_step:
  assumes ex: "heap_except_up h v" and v: "v \<noteq> 0" "v < Size h"
    and le: "\<not> key_at h (v div 2) < key_at h v"
  shows "heap_except_up (swap_nodes h (v div 2) v) (v div 2)"
proof -
  let ?p = "v div 2" and ?h = "swap_nodes h (v div 2) v"
  have p: "?p < Size h" "?p < v" using v by auto
  have K: "\<And>w. w < Size h \<Longrightarrow> key_at ?h w
      = (if w = v then key_at h ?p else if w = ?p then key_at h v else key_at h w)"
    using key_at_swap_nodes [OF p(1) v(2)] by simp
  from ex have A: "\<And>w. 1 \<le> w \<Longrightarrow> w < Size h \<Longrightarrow> w \<noteq> v \<Longrightarrow> key_at h (w div 2) \<le> key_at h w"
    and B: "\<And>c. 1 \<le> c \<Longrightarrow> c < Size h \<Longrightarrow> c div 2 = v \<Longrightarrow> key_at h ?p \<le> key_at h c"
    using v by (auto simp: heap_except_up_def)
  have 1: "key_at ?h (w div 2) \<le> key_at ?h w" if w: "1 \<le> w" "w < Size h" "w \<noteq> ?p" for w
  proof -
    have w2: "w div 2 < Size h" using w by auto
    consider "w = v" | "w \<noteq> v" "w div 2 = v" | "w \<noteq> v" "w div 2 = ?p" | "w \<noteq> v" "w div 2 \<noteq> v" "w div 2 \<noteq> ?p"
      by blast
    then show ?thesis
    proof cases
      case 1
      with le p show ?thesis by (simp add: K v)
    next
      case 2
      with B [OF w(1,2)] w p show ?thesis by (simp add: K v)
    next
      case 3
      with A [OF w(1,2)] le w p v show ?thesis by (simp add: K)
    next
      case 4
      with A [OF w(1,2)] w w2 show ?thesis by (simp add: K)
    qed
  qed
  have 2: "key_at ?h (?p div 2) \<le> key_at ?h c"
    if c: "1 \<le> c" "c < Size h" "c div 2 = ?p" "1 \<le> ?p" for c
  proof -
    have pp: "?p div 2 < Size h" "?p div 2 \<noteq> ?p" "?p div 2 \<noteq> v" using p c by auto
    have pk: "key_at h (?p div 2) \<le> key_at h ?p"
      using A [of ?p] p c by simp
    have cp: "c \<noteq> ?p" using c by auto
    show ?thesis
    proof (cases "c = v")
      case True
      with pk pp show ?thesis by (simp add: K v)
    next
      case False
      with A [OF c(1,2)] c pk cp pp show ?thesis by (simp add: K)
    qed
  qed
  from 1 2 show ?thesis by (simp add: heap_except_up_def)
qed

lemma pick_child_cases:
  assumes "2 * v < Size h"
  shows "pick_child h (2 * v) < Size h"
    and "pick_child h (2 * v) = 2 * v \<or> pick_child h (2 * v) = 2 * v + 1"
    and "key_at h (pick_child h (2 * v)) \<le> key_at h (2 * v)"
    and "2 * v + 1 < Size h \<Longrightarrow> key_at h (pick_child h (2 * v)) \<le> key_at h (2 * v + 1)"
  using assms by (auto simp: pick_child_def key_at_def)

lemma children: "c div 2 = v \<longleftrightarrow> c = 2 * v \<or> c = 2 * v + 1" for c v :: nat
  by presburger

lemma heap_except_down_leaf:
  assumes "heap_except_down h v" "Size h \<le> 2 * v"
  shows "heap_property h"
  unfolding heap_property_key_at
proof
  fix w assume w: "w \<in> {1..<Size h}"
  with assms(2) have "w div 2 \<noteq> v" by (auto simp: children)
  with assms(1) w show "key_at h (w div 2) \<le> key_at h w"
    by (auto simp: heap_except_down_def)
qed

lemma heap_except_down_done:
  assumes ex: "heap_except_down h v" and v: "2 * v < Size h"
    and lt: "key_at h v < key_at h (pick_child h (2 * v))"
  shows "heap_property h"
  unfolding heap_property_key_at
proof
  fix w assume w: "w \<in> {1..<Size h}"
  show "key_at h (w div 2) \<le> key_at h w"
  proof (cases "w div 2 = v")
    case False
    with ex w show ?thesis by (auto simp: heap_except_down_def)
  next
    case True
    then have "w = 2 * v \<or> w = 2 * v + 1" by (simp add: children)
    with pick_child_cases(3,4) [OF v] lt w True show ?thesis by auto
  qed
qed

lemma heap_except_down_step:
  assumes ex: "heap_except_down h v" and v: "2 * v < Size h"
    and u: "u = pick_child h (2 * v)" "u \<noteq> v"
    and le: "\<not> key_at h v < key_at h u"
  shows "heap_except_down (swap_nodes h v u) u"
proof -
  let ?h = "swap_nodes h v u"
  have uS: "u < Size h" and uc: "u = 2 * v \<or> u = 2 * v + 1"
    using pick_child_cases(1,2) [OF v] u by auto
  have vu: "v < u" "v < Size h" "u div 2 = v" using uc u uS by auto
  have min: "\<And>c. c < Size h \<Longrightarrow> c div 2 = v \<Longrightarrow> key_at h u \<le> key_at h c"
    using pick_child_cases(3,4) [OF v] u by (auto simp: children)
  have K: "\<And>w. w < Size h \<Longrightarrow> key_at ?h w
      = (if w = u then key_at h v else if w = v then key_at h u else key_at h w)"
    using key_at_swap_nodes [OF vu(2) uS] by simp
  from ex have A: "\<And>w. 1 \<le> w \<Longrightarrow> w < Size h \<Longrightarrow> w div 2 \<noteq> v \<Longrightarrow> key_at h (w div 2) \<le> key_at h w"
    and B: "\<And>c. 1 \<le> c \<Longrightarrow> c < Size h \<Longrightarrow> c div 2 = v \<Longrightarrow> 1 \<le> v \<Longrightarrow> key_at h (v div 2) \<le> key_at h c"
    by (auto simp: heap_except_down_def)
  have 1: "key_at ?h (w div 2) \<le> key_at ?h w" if w: "1 \<le> w" "w < Size h" "w div 2 \<noteq> u" for w
  proof -
    have w2: "w div 2 < Size h" using w by auto
    consider "w = u" | "w = v" | "w \<noteq> u" "w \<noteq> v" "w div 2 = v" | "w \<noteq> u" "w \<noteq> v" "w div 2 \<noteq> v"
      by blast
    then show ?thesis
    proof cases
      case 1
      with le vu uS show ?thesis by (simp add: K)
    next
      case 2
      with w have v1: "1 \<le> v" by simp
      then have "v div 2 \<noteq> v" "v div 2 \<noteq> u" "v div 2 < Size h" using vu by auto
      with B [of u] uS vu v1 2 w show ?thesis by (simp add: K)
    next
      case 3
      with min [of w] w vu show ?thesis by (simp add: K)
    next
      case 4
      with A [OF w(1,2)] w w2 show ?thesis by (simp add: K)
    qed
  qed
  have 2: "key_at ?h (u div 2) \<le> key_at ?h c"
    if c: "1 \<le> c" "c < Size h" "c div 2 = u" "1 \<le> u" for c
  proof -
    have "c \<noteq> u" "c \<noteq> v" using c vu by auto
    moreover have "key_at h u \<le> key_at h c" using A [of c] c u by simp
    ultimately show ?thesis using c vu by (simp add: K)
  qed
  from 1 2 show ?thesis by (simp add: heap_except_down_def)
qed

subsection \<open>The sift loops\<close>

lemma MoveUp_loop_root: "MoveUp_loop h 0 = h"
  by (simp add: MoveUp_loop.simps [of h 0])

lemma MoveUp_loop_stop:
  "v \<noteq> 0 \<Longrightarrow> fst (m_Nodes h ! (v div 2)) < fst (m_Nodes h ! v) \<Longrightarrow> MoveUp_loop h v = h"
  by (simp add: MoveUp_loop.simps [of h v])

lemma MoveUp_loop_swap:
  "v \<noteq> 0 \<Longrightarrow> \<not> fst (m_Nodes h ! (v div 2)) < fst (m_Nodes h ! v) \<Longrightarrow>
     MoveUp_loop h v = MoveUp_loop (swap_nodes h (v div 2) v) (v div 2)"
  by (simp add: MoveUp_loop.simps [of h v] Let_def)

lemma same_elements_refl: "same_elements h h"
  by (simp add: same_elements_def)

lemma same_elements_trans:
  "same_elements h h' \<Longrightarrow> same_elements h' h'' \<Longrightarrow> same_elements h h''"
  by (simp add: same_elements_def)

lemma same_elements_swap_nodes:
  "well_formed h \<Longrightarrow> a < Size h \<Longrightarrow> b < Size h \<Longrightarrow> same_elements h (swap_nodes h a b)"
  by (simp add: same_elements_def swap_nodes_key_of)

lemma MoveUp_loop_well_formed:
  "well_formed h \<Longrightarrow> v < Size h \<Longrightarrow>
     well_formed (MoveUp_loop h v) \<and> same_elements h (MoveUp_loop h v)"
proof (induction h v rule: MoveUp_loop.induct)
  case (1 h v)
  note step = MoveUp_loop_root MoveUp_loop_stop MoveUp_loop_swap
  show ?case
  proof (cases "v \<noteq> 0 \<and> \<not> fst (m_Nodes h ! (v div 2)) < fst (m_Nodes h ! v)")
    case False
    then have "MoveUp_loop h v = h" by (cases "v = 0") (auto simp: step)
    with "1.prems" show ?thesis by (simp add: same_elements_refl)
  next
    case True
    let ?h = "swap_nodes h (v div 2) v"
    have p: "v div 2 < Size h" using "1.prems" by auto
    have wf: "well_formed ?h" by (rule swap_nodes_well_formed [OF "1.prems"(1) p "1.prems"(2)])
    have se: "same_elements h ?h"
      by (rule same_elements_swap_nodes [OF "1.prems"(1) p "1.prems"(2)])
    have "well_formed (MoveUp_loop ?h (v div 2)) \<and> same_elements ?h (MoveUp_loop ?h (v div 2))"
      using True wf p by (intro "1.IH") auto
    moreover have "MoveUp_loop h v = MoveUp_loop ?h (v div 2)"
      using True by (simp add: step)
    ultimately show ?thesis using se
      by (auto intro: same_elements_trans)
  qed
qed

lemma MoveUp_loop_heap_property:
  "v < Size h \<Longrightarrow> heap_except_up h v \<Longrightarrow> heap_property (MoveUp_loop h v)"
proof (induction h v rule: MoveUp_loop.induct)
  case (1 h v)
  note step = MoveUp_loop_root MoveUp_loop_stop MoveUp_loop_swap
  show ?case
  proof (cases "v = 0")
    case True
    with "1.prems" show ?thesis by (simp add: step heap_except_up_root)
  next
    case False
    show ?thesis
    proof (cases "key_at h (v div 2) < key_at h v")
      case True
      with heap_except_up_done [OF "1.prems"(2) True] False show ?thesis
        by (simp add: step key_at_def)
    next
      case lt: False
      let ?h = "swap_nodes h (v div 2) v"
      have "heap_except_up ?h (v div 2)"
        by (rule heap_except_up_step [OF "1.prems"(2) False "1.prems"(1) lt])
      moreover have "v div 2 < Size ?h" using "1.prems" by auto
      ultimately have "heap_property (MoveUp_loop ?h (v div 2))"
        using False lt by (intro "1.IH") (auto simp: key_at_def)
      with False lt show ?thesis by (simp add: step key_at_def)
    qed
  qed
qed

lemma MoveDown_loop_invariants:
  assumes "MoveDown_loop h v = Some h'"
  shows "(well_formed h \<and> v < Size h \<longrightarrow> well_formed h' \<and> same_elements h h')
       \<and> (heap_except_down h v \<longrightarrow> heap_property h')"
proof (rule MoveDown_loop.raw_induct
    [where P = "\<lambda>h v h'. (well_formed h \<and> v < Size h \<longrightarrow> well_formed h' \<and> same_elements h h')
       \<and> (heap_except_down h v \<longrightarrow> heap_property h')", OF _ assms])
  fix f :: "MinHeap \<Rightarrow> nat \<Rightarrow> MinHeap option" and h v ha
  assume IH: "\<And>h v y. f h v = Some y \<Longrightarrow>
       (well_formed h \<and> v < Size h \<longrightarrow> well_formed y \<and> same_elements h y)
       \<and> (heap_except_down h v \<longrightarrow> heap_property y)"
    and body: "(if Size h \<le> 2 * v then Some h
      else let u = pick_child h (2 * v)
           in if fst (m_Nodes h ! v) < fst (m_Nodes h ! u) then Some h
              else f (swap_nodes h v u) u) = Some ha"
  show "(well_formed h \<and> v < Size h \<longrightarrow> well_formed ha \<and> same_elements h ha)
       \<and> (heap_except_down h v \<longrightarrow> heap_property ha)"
  proof (cases "Size h \<le> 2 * v")
    case True
    with body have "ha = h" by simp
    with True show ?thesis by (auto simp: same_elements_refl heap_except_down_leaf)
  next
    case False
    then have v2: "2 * v < Size h" by simp
    let ?u = "pick_child h (2 * v)"
    have uS: "?u < Size h" by (rule pick_child_cases(1) [OF v2])
    show ?thesis
    proof (cases "key_at h v < key_at h ?u")
      case True
      with body False have "ha = h" by (simp add: key_at_def Let_def)
      with True v2 show ?thesis by (auto simp: same_elements_refl heap_except_down_done)
    next
      case lt: False
      let ?h = "swap_nodes h v ?u"
      from body False lt have run: "f ?h ?u = Some ha" by (simp add: key_at_def Let_def)
      note IH' = IH [OF run]
      have 1: "well_formed ha \<and> same_elements h ha" if wf: "well_formed h" and v: "v < Size h"
      proof -
        have "well_formed ?h" by (rule swap_nodes_well_formed [OF wf v uS])
        with IH' uS have "well_formed ha" "same_elements ?h ha" by auto
        with same_elements_swap_nodes [OF wf v uS] show ?thesis
          by (auto intro: same_elements_trans)
      qed
      have 2: "heap_property ha" if ex: "heap_except_down h v"
      proof (cases "?u = v")
        case True
        with IH' ex show ?thesis by (simp add: swap_nodes_same)
      next
        case False
        have "heap_except_down ?h ?u"
          by (rule heap_except_down_step [OF ex v2 refl False lt])
        with IH' show ?thesis by simp
      qed
      from 1 2 show ?thesis by blast
    qed
  qed
qed

subsection \<open>Changing a key\<close>

lemma well_formedD:
  assumes "well_formed h"
  shows "length (m_Perm h) = Size h"
    and "e < Size h \<Longrightarrow> m_Perm h ! e < Size h"
    and "e < Size h \<Longrightarrow> snd (m_Nodes h ! (m_Perm h ! e)) = e"
    and "v < Size h \<Longrightarrow> snd (m_Nodes h ! v) < Size h"
    and "v < Size h \<Longrightarrow> m_Perm h ! snd (m_Nodes h ! v) = v"
  using assms by (auto simp: well_formed_def perm_inverse_def nodes_inverse_def)

lemma add_to_key_fields [simp]:
  "Size (add_to_key h v x) = Size h"
  "m_Sign (add_to_key h v x) = m_Sign h"
  "m_Perm (add_to_key h v x) = m_Perm h"
  by (simp_all add: add_to_key_def Size_def)

lemma snd_add_to_key:
  "w < Size h \<Longrightarrow> snd (m_Nodes (add_to_key h v x) ! w) = snd (m_Nodes h ! w)"
  by (cases "w = v") (simp_all add: add_to_key_def Size_def)

lemma key_at_add_to_key:
  "w < Size h \<Longrightarrow> key_at (add_to_key h v x) w = (if w = v then key_at h v + x else key_at h w)"
  by (simp add: add_to_key_def key_at_def Size_def nth_list_update)

lemma add_to_key_well_formed:
  assumes "well_formed h"
  shows "well_formed (add_to_key h v x)"
  using well_formedD [OF assms]
  by (simp add: well_formed_def perm_inverse_def nodes_inverse_def snd_add_to_key)

lemma key_of_add_to_key:
  assumes wf: "well_formed h" and e: "e < Size h" and e': "e' < Size h"
  shows "key_of (add_to_key h (m_Perm h ! e) x) e'
     = (if e' = e then key_of h e + x else key_of h e')"
proof -
  have "m_Perm h ! e' = m_Perm h ! e \<longleftrightarrow> e' = e"
    using well_formedD(3) [OF wf e] well_formedD(3) [OF wf e'] by auto
  moreover have "key_of (add_to_key h (m_Perm h ! e) x) e'
      = key_at (add_to_key h (m_Perm h ! e) x) (m_Perm h ! e')"
    by (simp add: key_of_def key_at_def)
  ultimately show ?thesis
    using well_formedD(2) [OF wf e']
    by (simp add: key_at_add_to_key) (simp add: key_of_def key_at_def)
qed

lemma add_to_key_heap_except_up:
  assumes hp: "heap_property h" and x: "x \<le> 0"
  shows "heap_except_up (add_to_key h v x) v"
proof -
  let ?h = "add_to_key h v x"
  from hp have H: "\<And>w. 1 \<le> w \<Longrightarrow> w < Size h \<Longrightarrow> key_at h (w div 2) \<le> key_at h w"
    by (simp add: heap_property_key_at)
  have 1: "key_at ?h (w div 2) \<le> key_at ?h w" if w: "1 \<le> w" "w < Size h" "w \<noteq> v" for w
  proof -
    have "w div 2 < Size h" using w by auto
    with H [OF w(1,2)] w x show ?thesis by (auto simp: key_at_add_to_key)
  qed
  have 2: "key_at ?h (v div 2) \<le> key_at ?h c"
    if c: "1 \<le> c" "c < Size h" "c div 2 = v" "1 \<le> v" for c
  proof -
    have n: "c \<noteq> v" "v div 2 \<noteq> v" "v < Size h" "v div 2 < Size h" using c by auto
    have "key_at h (v div 2) \<le> key_at h v" using H [of v] c n by simp
    moreover have "key_at h v \<le> key_at h c" using H [of c] c by simp
    ultimately show ?thesis using c n by (simp add: key_at_add_to_key)
  qed
  from 1 2 show ?thesis by (simp add: heap_except_up_def)
qed

lemma add_to_key_heap_except_down:
  assumes hp: "heap_property h" and x: "0 \<le> x"
  shows "heap_except_down (add_to_key h v x) v"
proof -
  let ?h = "add_to_key h v x"
  from hp have H: "\<And>w. 1 \<le> w \<Longrightarrow> w < Size h \<Longrightarrow> key_at h (w div 2) \<le> key_at h w"
    by (simp add: heap_property_key_at)
  have 1: "key_at ?h (w div 2) \<le> key_at ?h w" if w: "1 \<le> w" "w < Size h" "w div 2 \<noteq> v" for w
  proof -
    have "w div 2 < Size h" using w by auto
    with H [OF w(1,2)] w x show ?thesis by (auto simp: key_at_add_to_key)
  qed
  have 2: "key_at ?h (v div 2) \<le> key_at ?h c"
    if c: "1 \<le> c" "c < Size h" "c div 2 = v" "1 \<le> v" for c
  proof -
    have n: "c \<noteq> v" "v div 2 \<noteq> v" "v < Size h" "v div 2 < Size h" using c by auto
    have "key_at h (v div 2) \<le> key_at h v" using H [of v] c n by simp
    moreover have "key_at h v \<le> key_at h c" using H [of c] c by simp
    ultimately show ?thesis using c n by (simp add: key_at_add_to_key)
  qed
  from 1 2 show ?thesis by (simp add: heap_except_down_def)
qed

lemma changed_keyI:
  assumes wf: "well_formed h" and e: "e < Size h"
    and wf': "well_formed h'" and se: "same_elements (add_to_key h (m_Perm h ! e) x) h'"
  shows "changed_key h e x h'"
  using wf' se key_of_add_to_key [OF wf e]
  by (simp add: changed_key_def same_elements_def)

lemma MoveUp_after_add_to_key:
  assumes wf: "well_formed h" and e: "e < Size h"
  shows "changed_key h e x (MoveUp (add_to_key h (m_Perm h ! e) x) e)"
    and "heap_property h \<Longrightarrow> x \<le> 0 \<Longrightarrow>
         heap_property (MoveUp (add_to_key h (m_Perm h ! e) x) e)"
proof -
  let ?v = "m_Perm h ! e"
  let ?h1 = "add_to_key h ?v x"
  have v: "?v < Size ?h1" using well_formedD(2) [OF wf e] by simp
  have up: "MoveUp ?h1 e = MoveUp_loop ?h1 ?v" by (simp add: MoveUp_def)
  from MoveUp_loop_well_formed [OF add_to_key_well_formed [OF wf] v]
  show "changed_key h e x (MoveUp ?h1 e)"
    unfolding up by (intro changed_keyI [OF wf e]) auto
  show "heap_property (MoveUp ?h1 e)" if "heap_property h" "x \<le> 0"
    unfolding up
    by (rule MoveUp_loop_heap_property [OF v add_to_key_heap_except_up [OF that]])
qed

lemma MoveDown_after_add_to_key:
  assumes wf: "well_formed h" and e: "e < Size h"
    and run: "MoveDown (add_to_key h (m_Perm h ! e) x) e = Some h'"
  shows "changed_key h e x h'"
    and "heap_property h \<Longrightarrow> 0 \<le> x \<Longrightarrow> heap_property h'"
proof -
  let ?v = "m_Perm h ! e"
  let ?h1 = "add_to_key h ?v x"
  have v: "?v < Size ?h1" using well_formedD(2) [OF wf e] by simp
  from run have down: "MoveDown_loop ?h1 ?v = Some h'" by (simp add: MoveDown_def)
  note I = MoveDown_loop_invariants [OF down]
  from I add_to_key_well_formed [OF wf] v
  show "changed_key h e x h'"
    by (intro changed_keyI [OF wf e]) auto
  show "heap_property h'" if "heap_property h" "0 \<le> x"
    using I add_to_key_heap_except_down [OF that] by blast
qed

lemma DecreaseKey_changed_key:
  assumes wf: "well_formed h" and run: "DecreaseKey h e d = Some (Inr h')"
  shows "e < Size h \<and> changed_key h e (- (of_int (m_Sign h) * d)) h'"
proof -
  from run have e: "e < Size h"
    by (auto simp: DecreaseKey_def split: if_splits)
  show ?thesis
  proof (cases "m_Sign h > 0")
    case True
    with run e have "h' = MoveUp (add_to_key h (m_Perm h ! e) (- (of_int (m_Sign h) * d))) e"
      by (simp add: DecreaseKey_def Let_def)
    with MoveUp_after_add_to_key(1) [OF wf e] e show ?thesis by simp
  next
    case False
    with run e have "MoveDown (add_to_key h (m_Perm h ! e) (- (of_int (m_Sign h) * d))) e = Some h'"
      by (auto simp: DecreaseKey_def Let_def)
    with MoveDown_after_add_to_key(1) [OF wf e] e show ?thesis by simp
  qed
qed

lemma IncreaseKey_changed_key:
  assumes wf: "well_formed h" and run: "IncreaseKey h e d = Some (Inr h')"
  shows "e < Size h \<and> changed_key h e (of_int (m_Sign h) * d) h'"
proof -
  from run have e: "e < Size h"
    by (auto simp: IncreaseKey_def split: if_splits)
  show ?thesis
  proof (cases "m_Sign h > 0")
    case False
    with run e have "h' = MoveUp (add_to_key h (m_Perm h ! e) (of_int (m_Sign h) * d)) e"
      by (simp add: IncreaseKey_def Let_def)
    with MoveUp_after_add_to_key(1) [OF wf e] e show ?thesis by simp
  next
    case True
    with run e have "MoveDown (add_to_key h (m_Perm h ! e) (of_int (m_Sign h) * d)) e = Some h'"
      by (auto simp: IncreaseKey_def Let_def)
    with MoveDown_after_add_to_key(1) [OF wf e] e show ?thesis by simp
  qed
qed

lemma DecreaseKey_heap_property:
  assumes wf: "well_formed h" and hp: "heap_property h" and d: "0 \<le> d"
    and run: "DecreaseKey h e d = Some (Inr h')"
  shows "heap_property h'"
proof -
  from run have e: "e < Size h"
    by (auto simp: DecreaseKey_def split: if_splits)
  show ?thesis
  proof (cases "m_Sign h > 0")
    case True
    with d have x: "- (real_of_int (m_Sign h) * d) \<le> 0" by simp
    from True run e have "h' = MoveUp (add_to_key h (m_Perm h ! e) (- (of_int (m_Sign h) * d))) e"
      by (simp add: DecreaseKey_def Let_def)
    with MoveUp_after_add_to_key(2) [OF wf e hp x] show ?thesis by simp
  next
    case False
    with d have x: "0 \<le> - (real_of_int (m_Sign h) * d)"
      by (simp add: mult_nonpos_nonneg)
    from False run e
    have "MoveDown (add_to_key h (m_Perm h ! e) (- (of_int (m_Sign h) * d))) e = Some h'"
      by (auto simp: DecreaseKey_def Let_def)
    from MoveDown_after_add_to_key(2) [OF wf e this hp x] show ?thesis .
  qed
qed

lemma IncreaseKey_heap_property:
  assumes wf: "well_formed h" and hp: "heap_property h" and d: "0 \<le> d"
    and run: "IncreaseKey h e d = Some (Inr h')"
  shows "heap_property h'"
proof -
  from run have e: "e < Size h"
    by (auto simp: IncreaseKey_def split: if_splits)
  show ?thesis
  proof (cases "m_Sign h > 0")
    case False
    with d have x: "real_of_int (m_Sign h) * d \<le> 0"
      by (simp add: mult_nonpos_nonneg)
    from False run e have "h' = MoveUp (add_to_key h (m_Perm h ! e) (of_int (m_Sign h) * d)) e"
      by (simp add: IncreaseKey_def Let_def)
    with MoveUp_after_add_to_key(2) [OF wf e hp x] show ?thesis by simp
  next
    case True
    with d have x: "0 \<le> real_of_int (m_Sign h) * d" by simp
    from True run e
    have "MoveDown (add_to_key h (m_Perm h ! e) (of_int (m_Sign h) * d)) e = Some h'"
      by (auto simp: IncreaseKey_def Let_def)
    from MoveDown_after_add_to_key(2) [OF wf e this hp x] show ?thesis .
  qed
qed

subsection \<open>Construction and reachable heaps\<close>

lemma Insert_pushed:
  assumes "well_formed h"
  shows "Insert h Key = MoveUp_loop (pushed h Key) (Size h)"
  using well_formedD(1) [OF assms]
  by (simp add: Insert_def pushed_def MoveUp_def Size_def Let_def nth_append)

lemma pushed_fields [simp]:
  "Size (pushed h Key) = Suc (Size h)"
  "m_Sign (pushed h Key) = m_Sign h"
  by (simp_all add: pushed_def Size_def)

lemma pushed_well_formed:
  assumes wf: "well_formed h"
  shows "well_formed (pushed h Key)"
proof -
  note D = well_formedD [OF wf]
  have lenN: "length (m_Nodes h) = Size h" by (simp add: Size_def)
  have 1: "length (m_Perm (pushed h Key)) = Size (pushed h Key)"
    using D(1) by (simp add: pushed_def Size_def)
  have 2: "m_Perm (pushed h Key) ! e < Suc (Size h)
      \<and> snd (m_Nodes (pushed h Key) ! (m_Perm (pushed h Key) ! e)) = e"
    if "e < Suc (Size h)" for e
  proof (cases "e = Size h")
    case True
    then show ?thesis using D(1) lenN by (simp add: pushed_def nth_append)
  next
    case False
    with that have e: "e < Size h" by simp
    with D(2,3) [of e] show ?thesis using D(1) lenN by (simp add: pushed_def nth_append)
  qed
  have 3: "snd (m_Nodes (pushed h Key) ! v) < Suc (Size h)
      \<and> m_Perm (pushed h Key) ! snd (m_Nodes (pushed h Key) ! v) = v"
    if "v < Suc (Size h)" for v
  proof (cases "v = Size h")
    case True
    then show ?thesis using D(1) lenN by (simp add: pushed_def nth_append)
  next
    case False
    with that have v: "v < Size h" by simp
    with D(4,5) [of v] show ?thesis using D(1) lenN by (simp add: pushed_def nth_append)
  qed
  from 1 2 3 show ?thesis
    by (simp add: well_formed_def perm_inverse_def nodes_inverse_def)
qed

lemma key_at_pushed:
  "v < Size h \<Longrightarrow> key_at (pushed h Key) v = key_at h v"
  by (simp add: pushed_def key_at_def Size_def nth_append)

lemma key_of_pushed:
  assumes wf: "well_formed h"
  shows "e < Size h \<Longrightarrow> key_of (pushed h Key) e = key_of h e"
    and "key_of (pushed h Key) (Size h) = of_int (m_Sign h) * Key"
  using well_formedD(1) [OF wf] well_formedD(2) [OF wf, of e]
  by (simp_all add: pushed_def key_of_def Size_def nth_append)

lemma pushed_heap_except_up:
  assumes "heap_property h"
  shows "heap_except_up (pushed h Key) (Size h)"
proof -
  from assms have H: "\<And>w. 1 \<le> w \<Longrightarrow> w < Size h \<Longrightarrow> key_at h (w div 2) \<le> key_at h w"
    by (simp add: heap_property_key_at)
  have 1: "key_at (pushed h Key) (w div 2) \<le> key_at (pushed h Key) w"
    if w: "1 \<le> w" "w < Suc (Size h)" "w \<noteq> Size h" for w
  proof -
    have "w < Size h" "w div 2 < Size h" using w by auto
    with H [of w] w show ?thesis by (simp add: key_at_pushed)
  qed
  have 2: "\<not> (1 \<le> c \<and> c < Suc (Size h) \<and> c div 2 = Size h \<and> 1 \<le> Size h)" for c
    by auto
  from 1 2 show ?thesis by (auto simp: heap_except_up_def)
qed

lemma Insert_built_from:
  assumes b: "built_from Keys IsMaxHeap h"
  shows "built_from (Keys @ [Key]) IsMaxHeap (Insert h Key)"
proof -
  from b have wf: "well_formed h" and hp: "heap_property h" and sz: "Size h = length Keys"
    and sg: "m_Sign h = (if IsMaxHeap then - 1 else 1)"
    and ks: "\<And>e. e < length Keys \<Longrightarrow> key_of h e = of_int (m_Sign h) * Keys ! e"
    by (auto simp: built_from_def)
  let ?p = "pushed h Key" and ?h = "Insert h Key"
  have I: "?h = MoveUp_loop ?p (Size h)" by (rule Insert_pushed [OF wf])
  have v: "Size h < Size ?p" by simp
  from MoveUp_loop_well_formed [OF pushed_well_formed [OF wf] v]
  have wf': "well_formed ?h" and se: "same_elements ?p ?h" unfolding I by auto
  have hp': "heap_property ?h"
    unfolding I by (rule MoveUp_loop_heap_property [OF v pushed_heap_except_up [OF hp]])
  have k: "key_of ?h e = of_int (m_Sign ?h) * (Keys @ [Key]) ! e" if "e < Suc (length Keys)" for e
  proof -
    have "key_of ?h e = key_of ?p e" "m_Sign ?h = m_Sign h"
      using se that sz by (auto simp: same_elements_def)
    then show ?thesis
      using that key_of_pushed [OF wf] ks [of e] sz
      by (cases "e = length Keys") (auto simp: nth_append)
  qed
  from wf' hp' se sz sg k show ?thesis
    by (simp add: built_from_def same_elements_def)
qed

lemma MinHeap_new_snoc:
  "MinHeap_new (Keys @ [Key]) IsMaxHeap = Insert (MinHeap_new Keys IsMaxHeap) Key"
  by (simp add: MinHeap_new_def)

lemma MinHeap_new_built_from: "built_from Keys IsMaxHeap (MinHeap_new Keys IsMaxHeap)"
proof (induction Keys rule: rev_induct)
  case Nil
  show ?case
    by (simp add: MinHeap_new_def built_from_def well_formed_def perm_inverse_def
        nodes_inverse_def heap_property_def Size_def)
next
  case (snoc Key Keys)
  then show ?case by (simp add: MinHeap_new_snoc Insert_built_from)
qed

lemma heap_property_root:
  assumes "heap_property h"
  shows "v < Size h \<Longrightarrow> key_at h 0 \<le> key_at h v"
proof (induction v rule: less_induct)
  case (less v)
  show ?case
  proof (cases "v = 0")
    case True
    then show ?thesis by simp
  next
    case False
    with less.prems assms have "key_at h (v div 2) \<le> key_at h v"
      by (simp add: heap_property_key_at)
    moreover have "key_at h 0 \<le> key_at h (v div 2)"
      using False less.prems by (intro less.IH) auto
    ultimately show ?thesis by simp
  qed
qed

text \<open>
  Claim C2. For every non-empty sequence of keys, \<open>FindMin()\<close> on the heap built from it
  returns a pair \<open>(k, e)\<close> in which \<open>e\<close> is an element with \<open>Keys[e] = k\<close> and \<open>k\<close> is the
  least of the keys, or the greatest when the heap was built as a max-heap.
\<close>

theorem FindMin_of_built_heap:
  assumes "Keys \<noteq> []"
  shows "\<exists>k e. FindMin (MinHeap_new Keys IsMaxHeap) = Inr (k, e)
      \<and> e < length Keys \<and> Keys ! e = k
      \<and> k = (if IsMaxHeap then Max (set Keys) else Min (set Keys))"
proof -
  let ?h = "MinHeap_new Keys IsMaxHeap"
  let ?s = "real_of_int (m_Sign ?h)"
  let ?e = "snd (m_Nodes ?h ! 0)"
  from MinHeap_new_built_from [of Keys IsMaxHeap]
  have wf: "well_formed ?h" and hp: "heap_property ?h" and sz: "Size ?h = length Keys"
    and sg: "m_Sign ?h = (if IsMaxHeap then - 1 else 1)"
    and ks: "\<And>e. e < length Keys \<Longrightarrow> key_of ?h e = ?s * Keys ! e"
    by (auto simp: built_from_def)
  from assms sz have pos: "0 < Size ?h" by simp
  have e: "?e < length Keys" and pe: "m_Perm ?h ! ?e = 0"
    using well_formedD(4,5) [OF wf pos] sz by auto
  have root: "key_at ?h 0 = ?s * Keys ! ?e"
    using ks [OF e] pe by (simp add: key_of_def key_at_def)
  have ss: "?s * ?s = 1" using sg by simp
  have "?s * key_at ?h 0 = (?s * ?s) * Keys ! ?e" by (simp add: root)
  then have ret: "?s * key_at ?h 0 = Keys ! ?e" by (simp add: ss)
  have find: "FindMin ?h = Inr (Keys ! ?e, ?e)"
    using pos ret by (simp add: FindMin_def key_at_def)
  have le: "?s * Keys ! ?e \<le> ?s * Keys ! e'" if e': "e' < length Keys" for e'
  proof -
    have "m_Perm ?h ! e' < Size ?h" using well_formedD(2) [OF wf] e' sz by simp
    from heap_property_root [OF hp this] show ?thesis
      using root ks [OF e'] by (simp add: key_of_def key_at_def)
  qed
  have ext: "Keys ! ?e = (if IsMaxHeap then Max (set Keys) else Min (set Keys))"
  proof (cases IsMaxHeap)
    case True
    have "Keys ! ?e \<in> set Keys" using e by simp
    moreover have "x \<le> Keys ! ?e" if "x \<in> set Keys" for x
    proof -
      from that obtain e' where "e' < length Keys" "x = Keys ! e'"
        by (auto simp: in_set_conv_nth)
      with le [of e'] sg True show ?thesis by simp
    qed
    ultimately have "Max (set Keys) = Keys ! ?e"
      by (intro Max_eqI) auto
    with True show ?thesis by simp
  next
    case False
    have "Keys ! ?e \<in> set Keys" using e by simp
    moreover have "Keys ! ?e \<le> x" if "x \<in> set Keys" for x
    proof -
      from that obtain e' where "e' < length Keys" "x = Keys ! e'"
        by (auto simp: in_set_conv_nth)
      with le [of e'] sg False show ?thesis by simp
    qed
    ultimately have "Min (set Keys) = Keys ! ?e"
      by (intro Min_eqI) auto
    with False show ?thesis by simp
  qed
  from find e ext show ?thesis by blast
qed

lemma reachable_invariant:
  "reachable h \<Longrightarrow> well_formed h \<and> heap_property h \<and> (m_Sign h = 1 \<or> m_Sign h = - 1)"
proof (induction rule: reachable.induct)
  case (built Keys IsMaxHeap)
  from MinHeap_new_built_from [of Keys IsMaxHeap] show ?case
    by (auto simp: built_from_def)
next
  case (decreased h d e h')
  then have wf: "well_formed h" and hp: "heap_property h" by auto
  from DecreaseKey_changed_key [OF wf decreased.hyps(3)]
    DecreaseKey_heap_property [OF wf hp decreased.hyps(2,3)] decreased.IH
  show ?case by (auto simp: changed_key_def)
next
  case (increased h d e h')
  then have wf: "well_formed h" and hp: "heap_property h" by auto
  from IncreaseKey_changed_key [OF wf increased.hyps(3)]
    IncreaseKey_heap_property [OF wf hp increased.hyps(2,3)] increased.IH
  show ?case by (auto simp: changed_key_def)
qed

text \<open>
  Claim C4, as stated, for a call with a negative amount: on the min-heap built from the
  keys 1, 2, \<open>DecreaseKey(0, -5)\<close> returns, and leaves the key 6 at the root above the key
  2 at position 1.
\<close>

theorem DecreaseKey_negative_counterexample:
  "DecreaseKey (MinHeap_new [1, 2] False) 0 (- 5)
     = Some (Inr \<lparr>m_Nodes = [(6, 0), (2, 1)], m_Perm = [0, 1], m_Sign = 1\<rparr>)
   \<and> \<not> heap_property \<lparr>m_Nodes = [(6, 0), (2, 1)], m_Perm = [0, 1], m_Sign = 1\<rparr>"
proof -
  have "MinHeap_new [1, 2] False
      = \<lparr>m_Nodes = [(1, 0), (2, 1)], m_Perm = [0, 1], m_Sign = 1\<rparr>"
    by (simp add: MinHeap_new_def Insert_def MoveUp_def MoveUp_loop.simps swap_nodes_def
        Let_def)
  then have "DecreaseKey (MinHeap_new [1, 2] False) 0 (- 5)
      = Some (Inr \<lparr>m_Nodes = [(6, 0), (2, 1)], m_Perm = [0, 1], m_Sign = 1\<rparr>)"
    by (simp add: DecreaseKey_def Size_def add_to_key_def MoveUp_def MoveUp_loop.simps)
  moreover have "\<not> heap_property \<lparr>m_Nodes = [(6, 0), (2, 1)], m_Perm = [0, 1], m_Sign = 1\<rparr>"
    by (auto simp: heap_property_def Size_def intro!: bexI [of _ 1])
  ultimately show ?thesis by simp
qed

text \<open>
  Claim C4, amended. Every heap reachable from the constructor by calls of \<open>DecreaseKey\<close>
  and \<open>IncreaseKey\<close> that return, each with a non-negative amount, satisfies the
  representation invariant: \<open>m_Nodes[m_Perm[e]].second == e\<close> for every element \<open>e\<close>,
  \<open>m_Perm\<close> is the inverse permutation of the elements stored in \<open>m_Nodes\<close>, and the
  stored key at the parent position \<open>v / 2\<close> is at most the stored key at \<open>v\<close> for every
  position \<open>v \<ge> 1\<close>.
\<close>

theorem reachable_representation_invariant:
  "reachable h \<Longrightarrow> perm_inverse h \<and> nodes_inverse h \<and> heap_property h"
  using reachable_invariant [of h] by (simp add: well_formed_def)

text \<open>
  Claim C3. On a reachable heap, min or max, for an element \<open>e < Size()\<close> and \<open>d \<ge> 0\<close>:
  if \<open>DecreaseKey(e, d)\<close> returns, \<open>GetKey(e)\<close> is afterwards what it was before minus
  \<open>d\<close>; if \<open>IncreaseKey(e, d)\<close> returns, it is what it was before plus \<open>d\<close>.
\<close>

theorem key_after_change:
  assumes "reachable h" "e < Size h" "0 \<le> d" "GetKey h e = Inr k"
  shows "(DecreaseKey h e d = Some (Inr h1) \<longrightarrow> GetKey h1 e = Inr (k - d))
       \<and> (IncreaseKey h e d = Some (Inr h2) \<longrightarrow> GetKey h2 e = Inr (k + d))"
proof -
  let ?s = "real_of_int (m_Sign h)"
  from reachable_invariant [OF assms(1)]
  have wf: "well_formed h" and sg: "m_Sign h = 1 \<or> m_Sign h = - 1" by auto
  from sg have ss: "?s * ?s = 1" by auto
  from assms(2,4) have k: "k = ?s * key_of h e" by (simp add: GetKey_def key_of_def)
  have get: "GetKey h' e = Inr (k + ?s * x)" if "changed_key h e x h'" for h' x
  proof -
    from that assms(2) have "Size h' = Size h" "m_Sign h' = m_Sign h"
      "key_of h' e = key_of h e + x"
      by (auto simp: changed_key_def)
    with assms(2) k show ?thesis
      by (simp add: GetKey_def key_of_def algebra_simps)
  qed
  have "GetKey h1 e = Inr (k - d)" if "DecreaseKey h e d = Some (Inr h1)"
  proof -
    have "k + ?s * (- (?s * d)) = k - (?s * ?s) * d" by (simp add: algebra_simps)
    with get [of "- (?s * d)" h1] DecreaseKey_changed_key [OF wf that] ss
    show ?thesis by simp
  qed
  moreover have "GetKey h2 e = Inr (k + d)" if "IncreaseKey h e d = Some (Inr h2)"
  proof -
    have "k + ?s * (?s * d) = k + (?s * ?s) * d" by (simp add: algebra_simps)
    with get [of "?s * d" h2] IncreaseKey_changed_key [OF wf that] ss
    show ?thesis by simp
  qed
  ultimately show ?thesis by blast
qed

lemma MinHeap_new_example: "MinHeap_new [3, 1, 2, 0] False
   = \<lparr>m_Nodes = [(0, 3), (1, 1), (3, 0), (2, 2)], m_Perm = [2, 1, 3, 0], m_Sign = 1\<rparr>"
  by (simp add: MinHeap_new_def Insert_def MoveUp_def MoveUp_loop.simps swap_nodes_def Let_def)

lemma DecreaseKey_example: "DecreaseKey \<lparr>m_Nodes = [(0, 3), (1, 1), (3, 0), (2, 2)], m_Perm = [2, 1, 3, 0], m_Sign = 1\<rparr> 0 5
   = Some (Inr \<lparr>m_Nodes = [(- 2, 0), (0, 3), (1, 1), (2, 2)], m_Perm = [0, 2, 3, 1], m_Sign = 1\<rparr>)"
  by (simp add: DecreaseKey_def Size_def add_to_key_def MoveUp_def MoveUp_loop.simps swap_nodes_def Let_def)

lemma IncreaseKey_example: "IncreaseKey \<lparr>m_Nodes = [(0, 3), (1, 1), (3, 0), (2, 2)], m_Perm = [2, 1, 3, 0], m_Sign = 1\<rparr> 3 5
   = Some (Inr \<lparr>m_Nodes = [(1, 1), (2, 2), (3, 0), (5, 3)], m_Perm = [2, 0, 1, 3], m_Sign = 1\<rparr>)"
  by (simp add: IncreaseKey_def Size_def add_to_key_def MoveDown_def MoveDown_loop.simps
      pick_child_def swap_nodes_def Let_def)

subsection \<open>Instances on a heap of four elements\<close>

theorem FindMin_of_built_heap_witness:
  "[3, 1, 2, 0 :: real] \<noteq> []
   \<and> (\<exists>k e. FindMin (MinHeap_new [3, 1, 2, 0] False) = Inr (k, e)
         \<and> e < length [3, 1, 2, 0 :: real] \<and> [3, 1, 2, 0] ! e = k \<and> k = 0)
   \<and> (\<exists>k e. FindMin (MinHeap_new [3, 1, 2, 0] True) = Inr (k, e)
         \<and> e < length [3, 1, 2, 0 :: real] \<and> [3, 1, 2, 0] ! e = k \<and> k = 3)"
proof -
  have ne: "[3, 1, 2, 0 :: real] \<noteq> []" by simp
  from FindMin_of_built_heap [OF ne, of False] FindMin_of_built_heap [OF ne, of True] ne
  show ?thesis by simp
qed

lemma reachable_example:
  "reachable \<lparr>m_Nodes = [(- 2, 0), (0, 3), (1, 1), (2, 2)], m_Perm = [0, 2, 3, 1], m_Sign = 1\<rparr>"
proof -
  have "reachable (MinHeap_new [3, 1, 2, 0] False)" by (rule reachable.built)
  moreover have "(0::real) \<le> 5" by simp
  moreover note DecreaseKey_example [folded MinHeap_new_example]
  ultimately show ?thesis by (rule reachable.decreased)
qed

theorem reachable_representation_invariant_witness:
  "reachable \<lparr>m_Nodes = [(- 2, 0), (0, 3), (1, 1), (2, 2)], m_Perm = [0, 2, 3, 1], m_Sign = 1\<rparr>
   \<and> perm_inverse \<lparr>m_Nodes = [(- 2, 0), (0, 3), (1, 1), (2, 2)], m_Perm = [0, 2, 3, 1], m_Sign = 1\<rparr>
   \<and> nodes_inverse \<lparr>m_Nodes = [(- 2, 0), (0, 3), (1, 1), (2, 2)], m_Perm = [0, 2, 3, 1], m_Sign = 1\<rparr>
   \<and> heap_property \<lparr>m_Nodes = [(- 2, 0), (0, 3), (1, 1), (2, 2)], m_Perm = [0, 2, 3, 1], m_Sign = 1\<rparr>"
  using reachable_example reachable_representation_invariant [OF reachable_example]
  by simp

theorem key_after_change_witness:
  "reachable (MinHeap_new [3, 1, 2, 0] False)
   \<and> 0 < Size (MinHeap_new [3, 1, 2, 0] False) \<and> 3 < Size (MinHeap_new [3, 1, 2, 0] False)
   \<and> (0::real) \<le> 5
   \<and> GetKey (MinHeap_new [3, 1, 2, 0] False) 0 = Inr 3
   \<and> DecreaseKey (MinHeap_new [3, 1, 2, 0] False) 0 5
       = Some (Inr \<lparr>m_Nodes = [(- 2, 0), (0, 3), (1, 1), (2, 2)], m_Perm = [0, 2, 3, 1], m_Sign = 1\<rparr>)
   \<and> GetKey \<lparr>m_Nodes = [(- 2, 0), (0, 3), (1, 1), (2, 2)], m_Perm = [0, 2, 3, 1], m_Sign = 1\<rparr> 0
       = Inr (3 - 5)
   \<and> GetKey (MinHeap_new [3, 1, 2, 0] False) 3 = Inr 0
   \<and> IncreaseKey (MinHeap_new [3, 1, 2, 0] False) 3 5
       = Some (Inr \<lparr>m_Nodes = [(1, 1), (2, 2), (3, 0), (5, 3)], m_Perm = [2, 0, 1, 3], m_Sign = 1\<rparr>)
   \<and> GetKey \<lparr>m_Nodes = [(1, 1), (2, 2), (3, 0), (5, 3)], m_Perm = [2, 0, 1, 3], m_Sign = 1\<rparr> 3
       = Inr (0 + 5)"
proof -
  let ?h = "MinHeap_new [3, 1, 2, 0] False"
  have r: "reachable ?h" by (rule reachable.built)
  have s: "0 < Size ?h" "3 < Size ?h" by (simp_all add: MinHeap_new_example Size_def)
  have d: "(0::real) \<le> 5" by simp
  have g0: "GetKey ?h 0 = Inr 3" and g3: "GetKey ?h 3 = Inr 0"
    by (simp_all add: MinHeap_new_example GetKey_def Size_def)
  note dec = DecreaseKey_example [folded MinHeap_new_example]
  note inc = IncreaseKey_example [folded MinHeap_new_example]
  from key_after_change [OF r s(1) d g0] dec
  have 1: "GetKey \<lparr>m_Nodes = [(- 2, 0), (0, 3), (1, 1), (2, 2)], m_Perm = [0, 2, 3, 1], m_Sign = 1\<rparr> 0
       = Inr (3 - 5)" by blast
  from key_after_change [OF r s(2) d g3] inc
  have 2: "GetKey \<lparr>m_Nodes = [(1, 1), (2, 2), (3, 0), (5, 3)], m_Perm = [2, 0, 1, 3], m_Sign = 1\<rparr> 3
       = Inr (0 + 5)" by blast
  from r s d g0 g3 dec inc 1 2 show ?thesis by blast
qed

end
